theory Spec2Isabelle
  imports Complex_Main "HOL-Library.Word" "HOL-Library.Sublist"
begin

text \<open>
  The stage-chaining engine of the workflow repository: the completion-signal detector
  and the session-name helpers of \<open>shared/workflow_utils.js\<close>, and the class
  \<open>ChainKeywordMonitor\<close> of \<open>chain_keyword_monitor.js\<close> (constructor, \<open>start\<close>, \<open>stop\<close>, the
  poll cycle, keyword detection, stage execution and sending with retry). The terminal
  channel (\<open>readFromInstance\<close>, \<open>sendToInstance\<close>) and the clock are inputs.
\<close>

section \<open>JavaScript strings\<close>

text \<open>
  A JavaScript string is a sequence of 16-bit code units; \<open>length\<close>, \<open>includes\<close>,
  \<open>startsWith\<close>, \<open>endsWith\<close>, \<open>lastIndexOf\<close> and \<open>===\<close> all work on code units.
  The status markers of the source are single code units of the Basic Multilingual Plane
  (U+2610, U+25A1, U+23BF, U+23FA). ASCII literals are written \<open>asc ''...''\<close>.
\<close>

type_synonym jschar = "16 word"
type_synonym jsstring = "jschar list"

definition asc :: "string \<Rightarrow> jsstring" where
  "asc s = map of_char s"

text \<open>U+23FA, the marker the agent prints in front of its own output.\<close>

definition marker :: jschar where
  "marker = 0x23FA"

text \<open>
  The code units that \<open>String.prototype.trim\<close> removes and that \<open>\s\<close> matches:
  ECMAScript WhiteSpace and LineTerminator.
\<close>

definition isWhiteSpace :: "jschar \<Rightarrow> bool" where
  "isWhiteSpace c = (c \<in> set [0x09, 0x0A, 0x0B, 0x0C, 0x0D, 0x20, 0xA0, 0x1680,
     0x2000, 0x2001, 0x2002, 0x2003, 0x2004, 0x2005, 0x2006, 0x2007, 0x2008, 0x2009, 0x200A,
     0x2028, 0x2029, 0x202F, 0x205F, 0x3000, 0xFEFF])"

text \<open>\<open>\d\<close>: the ASCII digits.\<close>

definition isDigit :: "jschar \<Rightarrow> bool" where
  "isDigit c = (0x30 \<le> c \<and> c \<le> 0x39)"

definition trim :: "jsstring \<Rightarrow> jsstring" where
  "trim s = rev (dropWhile isWhiteSpace (rev (dropWhile isWhiteSpace s)))"

definition startsWith :: "jsstring \<Rightarrow> jsstring \<Rightarrow> bool" where
  "startsWith s p = prefix p s"

definition endsWith :: "jsstring \<Rightarrow> jsstring \<Rightarrow> bool" where
  "endsWith s p = suffix p s"

fun includes_str :: "jsstring \<Rightarrow> jsstring \<Rightarrow> bool" where
  "includes_str [] p = (p = [])"
| "includes_str (c # cs) p = (prefix p (c # cs) \<or> includes_str cs p)"

text \<open>\<open>occursAt s p i\<close>: the code units of \<open>p\<close> stand in \<open>s\<close> from offset \<open>i\<close> on.\<close>

definition occursAt :: "jsstring \<Rightarrow> jsstring \<Rightarrow> nat \<Rightarrow> bool" where
  "occursAt s p i = (i \<le> length s \<and> prefix p (drop i s))"

text \<open>\<open>s.lastIndexOf(p)\<close>: the greatest offset at which \<open>p\<close> occurs, or \<open>-1\<close>.\<close>

definition lastIndexOf :: "jsstring \<Rightarrow> jsstring \<Rightarrow> int" where
  "lastIndexOf s p =
     (case filter (occursAt s p) (rev [0..<Suc (length s)]) of
        [] \<Rightarrow> - 1
      | i # _ \<Rightarrow> int i)"

text \<open>\<open>s.split('\n')\<close>: always at least one line.\<close>

fun splitLines :: "jsstring \<Rightarrow> jsstring list" where
  "splitLines [] = [[]]"
| "splitLines (c # cs) =
     (if c = 0x0A then [] # splitLines cs
      else (case splitLines cs of
              [] \<Rightarrow> [[c]]
            | l # ls \<Rightarrow> (c # l) # ls))"

text \<open>
  \<open>s.replace(p, r)\<close> with a string pattern: the first occurrence of \<open>p\<close> is replaced.
  (The source only calls it with the replacement \<open>''\<close>, which has no \<open>$\<close> patterns.)
\<close>

fun replaceFirst :: "jsstring \<Rightarrow> jsstring \<Rightarrow> jsstring \<Rightarrow> jsstring" where
  "replaceFirst [] p r = (if p = [] then r else [])"
| "replaceFirst (c # cs) p r =
     (if prefix p (c # cs) then r @ drop (length p) (c # cs)
      else c # replaceFirst cs p r)"

text \<open>\<open>s.slice(-n)\<close> for a positive \<open>n\<close>: the last \<open>n\<close> code units (all of \<open>s\<close> if shorter).\<close>

definition sliceLast :: "nat \<Rightarrow> jsstring \<Rightarrow> jsstring" where
  "sliceLast n s = drop (length s - n) s"

section \<open>The completion-signal detector (shared/workflow\_utils.js)\<close>

text \<open>The array \<open>ignoredPatterns\<close>, in the source's order.\<close>

definition ignoredPatterns :: "jsstring \<Rightarrow> jsstring list" where
  "ignoredPatterns keyword =
     [[0x2610], [0x25A1], [0x23BF], asc ''Document'', asc ''signal completion'',
      asc ''with '' @ keyword, asc ''and '' @ keyword, asc ''using '' @ keyword,
      asc ''say '' @ keyword, asc ''Say '' @ keyword, asc ''type '' @ keyword,
      asc ''Execute step'', asc ''Step '', asc ''execute it'', asc ''plan:'',
      asc ''todo list'', asc ''Create'', asc ''Analyze'', asc ''then execute'',
      asc '': Say'', asc ''. Say'', asc ''Let me'', asc ''I need to'', asc ''I will'',
      asc ''I should'']"

text \<open>Those entries of \<open>ignoredPatterns\<close> that do not depend on the keyword.\<close>

definition fixedPatterns :: "jsstring list" where
  "fixedPatterns =
     [[0x2610], [0x25A1], [0x23BF], asc ''Document'', asc ''signal completion'',
      asc ''Execute step'', asc ''Step '', asc ''execute it'', asc ''plan:'',
      asc ''todo list'', asc ''Create'', asc ''Analyze'', asc ''then execute'',
      asc '': Say'', asc ''. Say'', asc ''Let me'', asc ''I need to'', asc ''I will'',
      asc ''I should'']"

text \<open>\<open>trimmedLine.match(/^\d+\./)\<close>: one or more digits, then a full stop.\<close>

definition numberedListItem :: "jsstring \<Rightarrow> bool" where
  "numberedListItem t =
     (takeWhile isDigit t \<noteq> [] \<and>
      (case dropWhile isDigit t of [] \<Rightarrow> False | c # _ \<Rightarrow> c = 0x2E))"

text \<open>
  \<open>new RegExp('^' + escaped(keyword) + '\\S*$').test(t)\<close>: every regular-expression
  metacharacter of the keyword is escaped, so the keyword matches literally; the rest of
  \<open>t\<close> must be free of whitespace.
\<close>

definition keywordPattern :: "jsstring \<Rightarrow> jsstring \<Rightarrow> bool" where
  "keywordPattern keyword t =
     (prefix keyword t \<and> list_all (\<lambda>c. \<not> isWhiteSpace c) (drop (length keyword) t))"

text \<open>
  \<open>t.replace(/^M\s*/, '')\<close> with the marker for \<open>M\<close>: a leading marker and the whitespace
  after it go.
\<close>

fun stripMarker :: "jsstring \<Rightarrow> jsstring" where
  "stripMarker [] = []"
| "stripMarker (c # cs) = (if c = marker then dropWhile isWhiteSpace cs else c # cs)"

definition isActualCompletionSignal :: "jsstring \<Rightarrow> jsstring \<Rightarrow> bool" where
  "isActualCompletionSignal line keyword =
     (let trimmedLine = trim line in
      if list_ex (includes_str trimmedLine) (ignoredPatterns keyword) then False
      else if numberedListItem trimmedLine then False
      else if endsWith keyword (asc '':'') then
        keywordPattern keyword trimmedLine \<or> keywordPattern keyword (stripMarker trimmedLine)
      else
        trimmedLine = keyword \<or>
        trimmedLine = marker # 0x20 # keyword \<or>
        (startsWith trimmedLine [marker] \<and> endsWith trimmedLine keyword \<and>
         length trimmedLine < length keyword + 10))"

section \<open>Instance identifiers and session names (shared/workflow\_utils.js)\<close>

definition normalizeInstanceId :: "jsstring \<Rightarrow> jsstring" where
  "normalizeInstanceId instanceId =
     (if \<not> includes_str instanceId (asc ''_'') \<or>
         (\<not> startsWith instanceId (asc ''auto_'') \<and> \<not> startsWith instanceId (asc ''spec_''))
      then instanceId
      else asc ''claude_'' @ instanceId)"

definition instanceIdToSessionName :: "jsstring \<Rightarrow> jsstring" where
  "instanceIdToSessionName instanceId = normalizeInstanceId instanceId"

definition sessionNameToInstanceId :: "jsstring \<Rightarrow> jsstring" where
  "sessionNameToInstanceId sessionName =
     (if startsWith sessionName (asc ''claude_'')
      then replaceFirst sessionName (asc ''claude_'') []
      else sessionName)"

section \<open>The chain keyword monitor (chain\_keyword\_monitor.js)\<close>

subsection \<open>Values and configuration\<close>

text \<open>
  A property that may be absent is an \<open>option\<close>; \<open>None\<close> is \<open>undefined\<close>. A string is
  falsy when it is absent or empty, a number when it is absent or zero. The durations
  of the configuration are modelled as whole seconds. \<open>retryAttempts\<close> is taken as it
  comes, unvalidated, and the loop of \<open>sendInstructionWithRetry\<close> compares its counter
  with it: it is modelled as a rational, which covers every number a JSON document can
  carry.
\<close>

definition truthy :: "jsstring option \<Rightarrow> bool" where
  "truthy v = (case v of None \<Rightarrow> False | Some s \<Rightarrow> s \<noteq> [])"

text \<open>\<open>v || d\<close> on numbers.\<close>

definition orDefault :: "'a::zero option \<Rightarrow> 'a \<Rightarrow> 'a" where
  "orDefault v d = (case v of None \<Rightarrow> d | Some n \<Rightarrow> if n = 0 then d else n)"

text \<open>String coercion of an argument that may be \<open>undefined\<close>.\<close>

definition toStr :: "jsstring option \<Rightarrow> jsstring" where
  "toStr v = (case v of None \<Rightarrow> asc ''undefined'' | Some s \<Rightarrow> s)"

datatype js_error = Error jsstring | TypeError

record chain =
  keyword :: "jsstring option"
  instruction :: "jsstring option"
  nextKeyword :: "jsstring option"

record options =
  optPollInterval :: "int option"
  optTimeout :: "int option"
  optRetryAttempts :: "rat option"
  optRetryDelay :: "int option"

text \<open>\<open>cfgChains = None\<close>: the property \<open>chains\<close> is missing or is not an array.\<close>

record config =
  cfgInstanceId :: "jsstring option"
  cfgChains :: "chain list option"
  cfgOptions :: "options option"

subsection \<open>Insertion-ordered maps and sets\<close>

text \<open>
  A JavaScript \<open>Map\<close> iterates in insertion order; \<open>set\<close> on a key that is present
  replaces the value and keeps the key's place.
\<close>

fun mapSet :: "'k \<Rightarrow> 'v \<Rightarrow> ('k \<times> 'v) list \<Rightarrow> ('k \<times> 'v) list" where
  "mapSet k v [] = [(k, v)]"
| "mapSet k v ((k', v') # kvs) =
     (if k' = k then (k, v) # kvs else (k', v') # mapSet k v kvs)"

definition mapGet :: "'k \<Rightarrow> ('k \<times> 'v) list \<Rightarrow> 'v option" where
  "mapGet k m = map_of m k"

definition setAdd :: "'a \<Rightarrow> 'a list \<Rightarrow> 'a list" where
  "setAdd x xs = (if x \<in> set xs then xs else xs @ [x])"

subsection \<open>The monitor's state\<close>

datatype execution =
  Execution (exKeyword: "jsstring option") (exInstruction: "jsstring option")
    (exTimestamp: int) (exChainIndex: nat)

datatype event =
    Started
  | Stopped
  | ChainExecuted "jsstring option" "jsstring option" nat
  | ChainFailed "jsstring option" "jsstring option" nat
  | ChainComplete nat "execution list"
  | Timeout nat nat
  | ErrorEvent js_error

text \<open>
  Of the console output two kinds of entry are kept: the warning of \<open>start()\<close> on a
  running monitor, and one entry for each check whose promise rejects. Listeners are
  taken to be registered for every event, as both launchers of the repository do
  (an \<open>error\<close> event without a listener would throw).
\<close>

datatype console_entry = WarnAlreadyRunning | ConsoleError js_error

text \<open>What the monitor does on the terminal channel while it sends an instruction.\<close>

datatype chan_action = Send nat | Wait int

text \<open>
  The fields of the class, with the emitted events, the kept console entries and the
  channel actions as logs (oldest first). \<open>interval = Some p\<close>: the recurring timer
  of period \<open>p\<close> is set. Times are milliseconds.
\<close>

record monitor =
  instanceId :: jsstring
  chains :: "chain list"
  pollInterval :: int
  timeout :: int
  retryAttempts :: rat
  retryDelay :: int
  currentChainIndex :: nat
  currentKeyword :: "jsstring option"
  isActive :: bool
  startTime :: "int option"
  interval :: "int option"
  outputBuffer :: jsstring
  pollCount :: nat
  executedChains :: "execution list"
  detectedKeywords :: "jsstring option list"
  lastDetectedPosition :: "(jsstring option \<times> int) list"
  keywordMap :: "(jsstring option \<times> chain \<times> nat) list"
  events :: "event list"
  console :: "console_entry list"
  channelLog :: "chan_action list"

subsection \<open>What the terminal channel answers\<close>

text \<open>
  \<open>readFromInstance\<close> resolves to \<open>{success, output, error}\<close> or rejects;
  \<open>sendToInstance\<close> resolves to \<open>{success, error}\<close> or rejects. One poll cycle sees the
  clock, one answer to its read and the answers to its send attempts, numbered from 1.
\<close>

datatype read_result = ReadOk jsstring | ReadFailed "jsstring option" | ReadThrew js_error

datatype send_result = SendOk | SendFail | SendThrow

record poll_env =
  now :: int
  readResult :: read_result
  sendResult :: "nat \<Rightarrow> send_result"

subsection \<open>Construction\<close>

text \<open>
  \<open>this.chains.forEach((chain, index) => this.keywordMap.set(chain.keyword, ...))\<close>:
  a later stage with the same keyword replaces the entry of an earlier one.
\<close>

fun buildKeywordMap ::
  "chain list \<Rightarrow> nat \<Rightarrow> (jsstring option \<times> chain \<times> nat) list
     \<Rightarrow> (jsstring option \<times> chain \<times> nat) list" where
  "buildKeywordMap [] index m = m"
| "buildKeywordMap (c # cs) index m =
     buildKeywordMap cs (Suc index) (mapSet (keyword c) (c, index) m)"

definition constructor :: "config \<Rightarrow> js_error + monitor" where
  "constructor cfg =
     (if \<not> truthy (cfgInstanceId cfg) then
        Inl (Error (asc ''Missing required config: instanceId''))
      else case cfgChains cfg of
        None \<Rightarrow> Inl (Error (asc ''Missing required config: chains array''))
      | Some cs \<Rightarrow>
          let opts = (case cfgOptions cfg of
                        None \<Rightarrow> \<lparr>optPollInterval = None, optTimeout = None,
                                  optRetryAttempts = None, optRetryDelay = None\<rparr>
                      | Some os \<Rightarrow> os)
          in Inr \<lparr>instanceId = toStr (cfgInstanceId cfg),
                  chains = cs,
                  pollInterval = orDefault (optPollInterval opts) 5 * 1000,
                  timeout = orDefault (optTimeout opts) 600 * 1000,
                  retryAttempts = orDefault (optRetryAttempts opts) 3,
                  retryDelay = orDefault (optRetryDelay opts) 2 * 1000,
                  currentChainIndex = 0,
                  currentKeyword = (case cs of [] \<Rightarrow> None | c # _ \<Rightarrow> keyword c),
                  isActive = False,
                  startTime = None,
                  interval = None,
                  outputBuffer = [],
                  pollCount = 0,
                  executedChains = [],
                  detectedKeywords = [],
                  lastDetectedPosition = [],
                  keywordMap = buildKeywordMap cs 0 [],
                  events = [],
                  console = [],
                  channelLog = []\<rparr>)"

subsection \<open>stop\<close>

definition stop :: "monitor \<Rightarrow> monitor" where
  "stop s =
     (if \<not> isActive s then s
      else s\<lparr>isActive := False, interval := None, events := events s @ [Stopped]\<rparr>)"

subsection \<open>Sending with retry\<close>

text \<open>
  The loop \<open>for (let attempt = 1; attempt <= this.retryAttempts; attempt++)\<close>. An
  attempt that resolves without success and an attempt that throws both fall through to
  the test \<open>attempt < this.retryAttempts\<close>, the wait and the next round. The result is
  the returned boolean and the channel actions in order. The counter is a natural
  number (a JavaScript number counts exactly up to \<open>2^53\<close>); \<open>retryAttempts\<close> is any
  rational.
\<close>

function sendLoop ::
  "(nat \<Rightarrow> send_result) \<Rightarrow> rat \<Rightarrow> int \<Rightarrow> nat \<Rightarrow> bool \<times> chan_action list" where
  "sendLoop ch attempts delay attempt =
     (if of_nat attempt \<le> attempts then
        (case ch attempt of
           SendOk \<Rightarrow> (True, [Send attempt])
         | _ \<Rightarrow>
             (let waits = (if of_nat attempt < attempts then [Wait delay] else []);
                  (result, later) = sendLoop ch attempts delay (Suc attempt)
              in (result, Send attempt # waits @ later)))
      else (False, []))"
  by pat_completeness auto
termination
proof -
  have below: "int attempt \<le> \<lfloor>attempts\<rfloor>" if "of_nat attempt \<le> attempts"
    for attempt :: nat and attempts :: rat
    using that by (simp add: le_floor_iff)
  show ?thesis
    by (relation "measure (\<lambda>(ch, attempts, delay, attempt). nat (\<lfloor>attempts\<rfloor> + 1 - int attempt))")
      (auto dest: below)
qed

declare sendLoop.simps [simp del]

definition sendInstructionWithRetry ::
  "(nat \<Rightarrow> send_result) \<Rightarrow> rat \<Rightarrow> int \<Rightarrow> bool \<times> chan_action list" where
  "sendInstructionWithRetry ch attempts delay = sendLoop ch attempts delay 1"

subsection \<open>Detecting a keyword in the buffer\<close>

text \<open>\<open>this.lastDetectedPosition.get(keyword) || -1\<close>: a recorded position 0 is falsy.\<close>

definition orMinusOne :: "int option \<Rightarrow> int" where
  "orMinusOne v = (case v of None \<Rightarrow> - 1 | Some p \<Rightarrow> if p = 0 then - 1 else p)"

text \<open>
  \<open>new RegExp(escaped(keyword) + '\\S*').test(line)\<close>: the pattern is not anchored and
  \<open>\S*\<close> matches the empty string, so it matches exactly when the keyword occurs.
\<close>

definition keywordSearch :: "jsstring \<Rightarrow> jsstring \<Rightarrow> bool" where
  "keywordSearch kwd line = includes_str line kwd"

definition hasKeyword :: "jsstring \<Rightarrow> jsstring \<Rightarrow> bool" where
  "hasKeyword line kwd =
     (if endsWith kwd (asc '':'') then keywordSearch kwd line
      else includes_str line kwd)"

definition isUserInput :: "bool \<Rightarrow> jsstring \<Rightarrow> jsstring \<Rightarrow> bool" where
  "isUserInput inUserCommand line kwd =
     (inUserCommand \<or>
      startsWith (trim line) (asc ''>'') \<or>
      includes_str line (asc ''plz say'') \<or>
      includes_str line (asc ''please say'') \<or>
      includes_str line (asc ''type:'') \<or>
      (includes_str line (asc ''Todo:'') \<and> includes_str line kwd) \<or>
      (includes_str line (asc ''Task:'') \<and> includes_str line kwd) \<or>
      (includes_str line (asc ''Given the following'') \<and> includes_str line kwd))"

text \<open>
  The loop over the lines of the buffer. \<open>inUserCommand\<close> is switched on by a line that
  starts with \<open>>\<close> and off by a line that contains the marker; the first line that
  has the keyword, is not user input and is a completion signal ends the loop with
  \<open>true\<close>.
\<close>

fun scanLines :: "jsstring \<Rightarrow> bool \<Rightarrow> jsstring list \<Rightarrow> bool" where
  "scanLines kwd inUserCommand [] = False"
| "scanLines kwd inUserCommand (line # rest) =
     (let trimmedLine = trim line;
          started = (inUserCommand \<or> startsWith trimmedLine (asc ''>''));
          inUser = (started \<and> \<not> includes_str trimmedLine [marker])
      in if hasKeyword line kwd \<and> \<not> isUserInput inUser line kwd \<and>
            isActualCompletionSignal line kwd
         then True
         else scanLines kwd inUser rest)"

text \<open>
  \<open>detectKeywordInOutput\<close>. With an \<open>undefined\<close> keyword, \<open>includes\<close> and \<open>lastIndexOf\<close>
  search for the text \<open>undefined\<close>, and \<open>keyword.endsWith\<close> throws a TypeError at the first
  line (there is always a first line).
\<close>

definition detectKeywordInOutput ::
  "jsstring option \<Rightarrow> monitor \<Rightarrow> js_error + (bool \<times> monitor)" where
  "detectKeywordInOutput kw s =
     (let buf = outputBuffer s; needle = toStr kw in
      if \<not> includes_str buf needle then Inr (False, s)
      else
        let currentPosition = lastIndexOf buf needle;
            lastPosition = orMinusOne (mapGet kw (lastDetectedPosition s))
        in if currentPosition \<le> lastPosition then Inr (False, s)
           else case kw of
                  None \<Rightarrow> Inl TypeError
                | Some kwd \<Rightarrow>
                    if scanLines kwd False (splitLines buf) then
                      Inr (True,
                           s\<lparr>lastDetectedPosition :=
                                mapSet kw (lastIndexOf buf kwd) (lastDetectedPosition s),
                              detectedKeywords := setAdd kw (detectedKeywords s)\<rparr>)
                    else Inr (False, s))"

subsection \<open>Executing a stage\<close>

definition executeChainAction :: "poll_env \<Rightarrow> chain \<times> nat \<Rightarrow> monitor \<Rightarrow> monitor" where
  "executeChainAction env chainConfig s =
     (let c = fst chainConfig; chainIndex = snd chainConfig in
      if list_ex (\<lambda>e. exKeyword e = keyword c \<and> exChainIndex e = chainIndex) (executedChains s)
      then s
      else
        let s1 = s\<lparr>executedChains := executedChains s @
                      [Execution (keyword c) (instruction c) (now env) chainIndex],
                    events := events s @ [ChainExecuted (keyword c) (instruction c) chainIndex]\<rparr>;
            (success, acts) =
              sendInstructionWithRetry (sendResult env) (retryAttempts s1) (retryDelay s1);
            s2 = s1\<lparr>channelLog := channelLog s1 @ acts\<rparr>
        in if \<not> success then
             stop (s2\<lparr>events := events s2 @ [ChainFailed (keyword c) (instruction c) chainIndex]\<rparr>)
           else if truthy (nextKeyword c) then
             s2\<lparr>currentKeyword := nextKeyword c, currentChainIndex := chainIndex + 1\<rparr>
           else
             stop (s2\<lparr>events := events s2 @
                     [ChainComplete (length (executedChains s2)) (executedChains s2)]\<rparr>))"

text \<open>
  \<open>checkForKeywords\<close>: the entries of \<open>keywordMap\<close> in insertion order; the first keyword
  that is detected has its stage executed and ends the loop. A TypeError leaves the loop.
\<close>

fun checkEntries ::
  "poll_env \<Rightarrow> (jsstring option \<times> chain \<times> nat) list \<Rightarrow> monitor \<Rightarrow> monitor \<times> js_error option" where
  "checkEntries env [] s = (s, None)"
| "checkEntries env ((kw, chainConfig) # rest) s =
     (case detectKeywordInOutput kw s of
        Inl e \<Rightarrow> (s, Some e)
      | Inr (detected, s') \<Rightarrow>
          if detected then (executeChainAction env chainConfig s', None)
          else checkEntries env rest s')"

definition checkForKeywords :: "poll_env \<Rightarrow> monitor \<Rightarrow> monitor \<times> js_error option" where
  "checkForKeywords env s = checkEntries env (keywordMap s) s"

subsection \<open>One poll cycle\<close>

text \<open>
  Output wrapped by the bridge, \<open>{"success":true,"output":"..."}\<close>: the pattern
  \<open>/{"success":true,"output":"(.*)"}$/\<close> matches from the leftmost occurrence of the
  prefix whose rest ends with \<open>"}\<close> and has no line terminator before that; in the group
  \<open>\n\<close> (backslash, n) becomes a line feed and \<open>\"\<close> a double quote.
\<close>

definition bridgePrefix :: jsstring where
  "bridgePrefix = asc ''{'' @ [0x22] @ asc ''success'' @ [0x22] @ asc '':true,'' @ [0x22] @
     asc ''output'' @ [0x22] @ asc '':'' @ [0x22]"

definition isLineTerminator :: "jschar \<Rightarrow> bool" where
  "isLineTerminator c = (c \<in> set [0x0A, 0x0D, 0x2028, 0x2029])"

definition bridgeGroup :: "jsstring \<Rightarrow> jsstring option" where
  "bridgeGroup r =
     (if suffix [0x22, 0x7D] r \<and> \<not> list_ex isLineTerminator (take (length r - 2) r)
      then Some (take (length r - 2) r) else None)"

fun bridgeMatch :: "jsstring \<Rightarrow> jsstring option" where
  "bridgeMatch [] = None"
| "bridgeMatch (c # cs) =
     (if prefix bridgePrefix (c # cs) \<and> bridgeGroup (drop (length bridgePrefix) (c # cs)) \<noteq> None
      then bridgeGroup (drop (length bridgePrefix) (c # cs))
      else bridgeMatch cs)"

fun replaceAllPairs :: "jschar \<Rightarrow> jschar \<Rightarrow> jschar \<Rightarrow> jsstring \<Rightarrow> jsstring" where
  "replaceAllPairs a b r (x # y # zs) =
     (if x = a \<and> y = b then r # replaceAllPairs a b r zs
      else x # replaceAllPairs a b r (y # zs))"
| "replaceAllPairs a b r zs = zs"

definition unwrapOutput :: "jsstring \<Rightarrow> jsstring" where
  "unwrapOutput newOutput =
     (if includes_str newOutput bridgePrefix then
        (case bridgeMatch newOutput of
           None \<Rightarrow> newOutput
         | Some g \<Rightarrow> replaceAllPairs 0x5C 0x22 0x22 (replaceAllPairs 0x5C 0x6E 0x0A g))
      else newOutput)"

text \<open>
  \<open>checkOutput\<close> runs up to its \<open>await readFromInstance(...)\<close> at once
  (\<open>checkOutputBegin\<close>) and continues when the read has answered
  (\<open>checkOutputResume\<close>). The second component of the result of \<open>checkOutputResume\<close> is
  the error with which the promise rejects, if it does.
\<close>

datatype check_phase = CheckDone | AwaitingRead

definition checkOutputBegin :: "int \<Rightarrow> monitor \<Rightarrow> monitor \<times> check_phase" where
  "checkOutputBegin t s =
     (if \<not> isActive s then (s, CheckDone)
      else
        let s1 = s\<lparr>pollCount := Suc (pollCount s)\<rparr> in
        if t - (case startTime s1 of None \<Rightarrow> 0 | Some t0 \<Rightarrow> t0) > timeout s1 then
          (let s2 = stop s1
           in (s2\<lparr>events := events s2 @
                    [Timeout (currentChainIndex s2) (length (executedChains s2))]\<rparr>, CheckDone))
        else (s1, AwaitingRead))"

definition checkOutputResume :: "poll_env \<Rightarrow> monitor \<Rightarrow> monitor \<times> js_error option" where
  "checkOutputResume env s =
     (case readResult env of
        ReadThrew e \<Rightarrow> (s, Some e)
      | ReadFailed msg \<Rightarrow>
          (s, Some (Error (if truthy msg then toStr msg
                           else asc ''Failed to read instance output'')))
      | ReadOk out \<Rightarrow>
          checkForKeywords env
            (s\<lparr>outputBuffer := sliceLast 10000 (outputBuffer s) @ unwrapOutput out\<rparr>))"

definition checkOutput :: "poll_env \<Rightarrow> monitor \<Rightarrow> monitor \<times> js_error option" where
  "checkOutput env s =
     (case checkOutputBegin (now env) s of
        (s1, CheckDone) \<Rightarrow> (s1, None)
      | (s1, AwaitingRead) \<Rightarrow> checkOutputResume env s1)"

text \<open>
  The callback of \<open>setInterval\<close>: a rejected check is logged and emitted as an \<open>error\<close>
  event. It only runs while the timer is set.
\<close>

definition intervalTick :: "poll_env \<Rightarrow> monitor \<Rightarrow> monitor" where
  "intervalTick env s =
     (if interval s = None then s
      else case checkOutput env s of
             (s', None) \<Rightarrow> s'
           | (s', Some e) \<Rightarrow>
               s'\<lparr>console := console s' @ [ConsoleError e], events := events s' @ [ErrorEvent e]\<rparr>)"

subsection \<open>start\<close>

text \<open>
  \<open>start()\<close> at time \<open>t0\<close>; its immediate check reads the clock at \<open>t\<close>. The result
  is the state when \<open>start()\<close> returns and whether the immediate check is waiting for
  its read. \<open>immediateCheckResume\<close> is the rest of that check, whose rejection goes to
  \<open>console.error\<close> only.
\<close>

definition start :: "int \<Rightarrow> int \<Rightarrow> monitor \<Rightarrow> js_error + (monitor \<times> check_phase)" where
  "start t0 t s =
     (if isActive s then Inr (s\<lparr>console := console s @ [WarnAlreadyRunning]\<rparr>, CheckDone)
      else
        let s1 = s\<lparr>isActive := True, startTime := Some t0, interval := Some (pollInterval s)\<rparr>;
            (s2, phase) = checkOutputBegin t s1
        in Inr (s2\<lparr>events := events s2 @ [Started]\<rparr>, phase))"

definition immediateCheckResume :: "poll_env \<Rightarrow> monitor \<Rightarrow> monitor" where
  "immediateCheckResume env s =
     (case checkOutputResume env s of
        (s', None) \<Rightarrow> s'
      | (s', Some e) \<Rightarrow> s'\<lparr>console := console s' @ [ConsoleError e]\<rparr>)"

subsection \<open>Runs\<close>

text \<open>
  Runs in which every poll cycle runs to completion before anything else happens:
  \<open>start()\<close>, the rest of its immediate check, then timer ticks and calls of \<open>stop()\<close>
  in any order. Runs in which poll cycles overlap or are interrupted follow below.
\<close>

datatype action = Tick poll_env | StopCall

fun perform :: "action \<Rightarrow> monitor \<Rightarrow> monitor" where
  "perform (Tick env) s = intervalTick env s"
| "perform StopCall s = stop s"

definition startAndCheck :: "int \<Rightarrow> poll_env \<Rightarrow> monitor \<Rightarrow> monitor" where
  "startAndCheck t0 env s =
     (case start t0 (now env) s of
        Inl e \<Rightarrow> s
      | Inr (s1, CheckDone) \<Rightarrow> s1
      | Inr (s1, AwaitingRead) \<Rightarrow> immediateCheckResume env s1)"

definition runMonitor :: "int \<Rightarrow> poll_env \<Rightarrow> action list \<Rightarrow> monitor \<Rightarrow> monitor" where
  "runMonitor t0 env acts s = fold perform acts (startAndCheck t0 env s)"

text \<open>The lifecycle events that report the end of a run.\<close>

fun isTerminalEvent :: "event \<Rightarrow> bool" where
  "isTerminalEvent Stopped = True"
| "isTerminalEvent (ChainComplete n xs) = True"
| "isTerminalEvent (ChainFailed k i n) = True"
| "isTerminalEvent (Timeout c n) = True"
| "isTerminalEvent e = False"

text \<open>
  The retry policy in the specification's words: \<open>m\<close> attempts, numbered from 1, with a
  wait of \<open>delay\<close> between consecutive attempts and none after the last.
  \<open>attemptsFrom\<close> is the same for the attempts \<open>a\<close> to \<open>m\<close>.
\<close>

definition attemptsFrom :: "int \<Rightarrow> nat \<Rightarrow> nat \<Rightarrow> chan_action list" where
  "attemptsFrom delay a m =
     concat (map (\<lambda>k. if k < m then [Send k, Wait delay] else [Send k]) [a..<Suc m])"

definition attemptsWithWaits :: "int \<Rightarrow> nat \<Rightarrow> chan_action list" where
  "attemptsWithWaits delay m = attemptsFrom delay 1 m"

fun isSend :: "chan_action \<Rightarrow> bool" where
  "isSend (Send k) = True"
| "isSend (Wait d) = False"

definition sendCount :: "chan_action list \<Rightarrow> nat" where
  "sendCount acts = length (filter isSend acts)"

subsection \<open>Poll cycles between their awaits\<close>

text \<open>
  A poll cycle is suspended twice: at \<open>await readFromInstance(...)\<close> and at
  \<open>await this.sendInstructionWithRetry(instruction)\<close>. While it is suspended the timer
  may fire again, \<open>stop()\<close> may be called and other poll cycles may go on; the source
  does not look at \<open>isActive\<close> again when it continues. Between two awaits the code
  runs without interruption. (The awaits on \<open>detectKeywordInOutput\<close>,
  \<open>checkForKeywords\<close> and \<open>executeChainAction\<close> wait for nothing outside the monitor:
  they continue before any timer or answer of the channel is handled. A listener that
  calls \<open>stop()\<close> from inside an event runs where a call of \<open>stop()\<close> right after that
  piece would run, or, for \<open>chain_failed\<close> and \<open>chain_complete\<close>, just before the
  \<open>stop()\<close> of the source itself.) The pieces:
  \<^item> \<open>checkOutputBegin\<close> (above): up to the read;
  \<^item> \<open>readAnswers\<close>: from the answer of the read through \<open>checkForKeywords\<close> up to
    the dispatch of \<open>executeChainAction\<close> (\<open>scanEntries\<close>, \<open>executeBegin\<close>);
  \<^item> \<open>executeFinish\<close>: from the end of the dispatch to the end of the poll cycle.
  The dispatch itself touches no field of the monitor, so it is one suspension here;
  its channel actions enter \<open>channelLog\<close> when it ends.
\<close>

datatype scan_result = NothingDetected | ScanThrew js_error | DetectedEntry "chain \<times> nat"

text \<open>The loop of \<open>checkForKeywords\<close> up to its call of \<open>executeChainAction\<close>.\<close>

fun scanEntries ::
  "(jsstring option \<times> chain \<times> nat) list \<Rightarrow> monitor \<Rightarrow> monitor \<times> scan_result" where
  "scanEntries [] s = (s, NothingDetected)"
| "scanEntries ((kw, chainConfig) # rest) s =
     (case detectKeywordInOutput kw s of
        Inl e \<Rightarrow> (s, ScanThrew e)
      | Inr (detected, s') \<Rightarrow>
          if detected then (s', DetectedEntry chainConfig)
          else scanEntries rest s')"

text \<open>
  \<open>executeChainAction\<close> up to its await, at time \<open>t\<close>: the duplicate guard, the record
  of the execution and the \<open>chain_executed\<close> event. The boolean tells whether a dispatch
  was begun.
\<close>

definition executeBegin :: "int \<Rightarrow> chain \<times> nat \<Rightarrow> monitor \<Rightarrow> monitor \<times> bool" where
  "executeBegin t chainConfig s =
     (let c = fst chainConfig; chainIndex = snd chainConfig in
      if list_ex (\<lambda>e. exKeyword e = keyword c \<and> exChainIndex e = chainIndex) (executedChains s)
      then (s, False)
      else
        (s\<lparr>executedChains := executedChains s @
               [Execution (keyword c) (instruction c) t chainIndex],
             events := events s @ [ChainExecuted (keyword c) (instruction c) chainIndex]\<rparr>,
         True))"

text \<open>\<open>executeChainAction\<close> after its await; \<open>ch\<close> are the channel's answers to the sends.\<close>

definition executeFinish :: "(nat \<Rightarrow> send_result) \<Rightarrow> chain \<times> nat \<Rightarrow> monitor \<Rightarrow> monitor" where
  "executeFinish ch chainConfig s =
     (let c = fst chainConfig; chainIndex = snd chainConfig;
          (success, acts) = sendInstructionWithRetry ch (retryAttempts s) (retryDelay s);
          s2 = s\<lparr>channelLog := channelLog s @ acts\<rparr>
      in if \<not> success then
           stop (s2\<lparr>events := events s2 @ [ChainFailed (keyword c) (instruction c) chainIndex]\<rparr>)
         else if truthy (nextKeyword c) then
           s2\<lparr>currentKeyword := nextKeyword c, currentChainIndex := chainIndex + 1\<rparr>
         else
           stop (s2\<lparr>events := events s2 @
                   [ChainComplete (length (executedChains s2)) (executedChains s2)]\<rparr>))"

text \<open>
  What is in flight: a read, together with the handler its poll cycle rejects to (the
  immediate check of \<open>start()\<close> logs, a timer tick logs and emits \<open>error\<close>), or the
  dispatch of a stage.
\<close>

datatype poll_kind = Immediate | Scheduled

datatype pending = PendingRead poll_kind | PendingDispatch "chain \<times> nat"

definition rejectCheck :: "poll_kind \<Rightarrow> js_error \<Rightarrow> monitor \<Rightarrow> monitor" where
  "rejectCheck k e s =
     (case k of
        Immediate \<Rightarrow> s\<lparr>console := console s @ [ConsoleError e]\<rparr>
      | Scheduled \<Rightarrow>
          s\<lparr>console := console s @ [ConsoleError e], events := events s @ [ErrorEvent e]\<rparr>)"

text \<open>
  The read of a poll cycle answers at time \<open>t\<close>. The second component is the dispatch
  that is now in flight, if one was begun.
\<close>

definition readAnswers ::
  "poll_kind \<Rightarrow> int \<Rightarrow> read_result \<Rightarrow> monitor \<Rightarrow> monitor \<times> pending list" where
  "readAnswers k t r s =
     (case r of
        ReadThrew e \<Rightarrow> (rejectCheck k e s, [])
      | ReadFailed msg \<Rightarrow>
          (rejectCheck k (Error (if truthy msg then toStr msg
                                 else asc ''Failed to read instance output'')) s, [])
      | ReadOk out \<Rightarrow>
          (let s1 = s\<lparr>outputBuffer := sliceLast 10000 (outputBuffer s) @ unwrapOutput out\<rparr>
           in case scanEntries (keywordMap s1) s1 of
                (s2, NothingDetected) \<Rightarrow> (s2, [])
              | (s2, ScanThrew e) \<Rightarrow> (rejectCheck k e s2, [])
              | (s2, DetectedEntry chainConfig) \<Rightarrow>
                  (case executeBegin t chainConfig s2 of
                     (s3, begun) \<Rightarrow> (s3, if begun then [PendingDispatch chainConfig] else []))))"

text \<open>
  What can happen next: the timer fires at time \<open>t\<close>; the read in flight at position
  \<open>i\<close> answers; the dispatch in flight at position \<open>i\<close> ends, the channel having
  answered its sends with \<open>ch\<close>; \<open>stop()\<close> is called. An answer for something that is
  not in flight changes nothing.
\<close>

datatype async_action =
    TimerFires int
  | ReadAnswers nat int read_result
  | DispatchEnds nat "nat \<Rightarrow> send_result"
  | StopCalled

definition dropAt :: "nat \<Rightarrow> 'a list \<Rightarrow> 'a list" where
  "dropAt i xs = take i xs @ drop (Suc i) xs"

fun asyncStep :: "async_action \<Rightarrow> monitor \<times> pending list \<Rightarrow> monitor \<times> pending list" where
  "asyncStep (TimerFires t) (s, ps) =
     (if interval s = None then (s, ps)
      else case checkOutputBegin t s of
             (s1, CheckDone) \<Rightarrow> (s1, ps)
           | (s1, AwaitingRead) \<Rightarrow> (s1, ps @ [PendingRead Scheduled]))"
| "asyncStep (ReadAnswers i t r) (s, ps) =
     (if i < length ps then
        (case ps ! i of
           PendingRead k \<Rightarrow>
             (case readAnswers k t r s of (s1, begun) \<Rightarrow> (s1, dropAt i ps @ begun))
         | PendingDispatch chainConfig \<Rightarrow> (s, ps))
      else (s, ps))"
| "asyncStep (DispatchEnds i ch) (s, ps) =
     (if i < length ps then
        (case ps ! i of
           PendingDispatch chainConfig \<Rightarrow> (executeFinish ch chainConfig s, dropAt i ps)
         | PendingRead k \<Rightarrow> (s, ps))
      else (s, ps))"
| "asyncStep StopCalled (s, ps) = (stop s, ps)"

text \<open>
  \<open>start()\<close> at time \<open>t0\<close>, its immediate check reading the clock at \<open>t\<close>. What
  is in flight from an earlier run stays in flight.
\<close>

fun asyncStart :: "int \<Rightarrow> int \<Rightarrow> monitor \<times> pending list \<Rightarrow> monitor \<times> pending list" where
  "asyncStart t0 t (s, ps) =
     (case start t0 t s of
        Inl e \<Rightarrow> (s, ps)
      | Inr (s1, CheckDone) \<Rightarrow> (s1, ps)
      | Inr (s1, AwaitingRead) \<Rightarrow> (s1, ps @ [PendingRead Immediate]))"

text \<open>A run: \<open>start()\<close> and the steps after it.\<close>

definition asyncRun ::
  "int \<Rightarrow> int \<Rightarrow> async_action list \<Rightarrow> monitor \<times> pending list \<Rightarrow> monitor \<times> pending list" where
  "asyncRun t0 t acts st = fold asyncStep acts (asyncStart t0 t st)"

text \<open>A poll cycle that runs to completion, as three steps.\<close>

definition wholePoll :: "poll_env \<Rightarrow> async_action list" where
  "wholePoll env =
     [TimerFires (now env), ReadAnswers 0 (now env) (readResult env),
      DispatchEnds 0 (sendResult env)]"

text \<open>The steps of a run whose poll cycles run to completion, see \<open>runMonitor\<close>.\<close>

fun stepsOf :: "action \<Rightarrow> async_action list" where
  "stepsOf (Tick env) = wholePoll env"
| "stepsOf StopCall = [StopCalled]"

definition runSteps :: "poll_env \<Rightarrow> action list \<Rightarrow> async_action list" where
  "runSteps env acts =
     [ReadAnswers 0 (now env) (readResult env), DispatchEnds 0 (sendResult env)] @
     concat (map stepsOf acts)"

subsection \<open>Terminal outcomes and their reports\<close>

definition newEvents :: "monitor \<Rightarrow> monitor \<Rightarrow> event list" where
  "newEvents s s' = drop (length (events s)) (events s')"

text \<open>\<open>appended s s'\<close>: the events of \<open>s'\<close> are those of \<open>s\<close> and then \<open>newEvents s s'\<close>.\<close>

definition appended :: "monitor \<Rightarrow> monitor \<Rightarrow> bool" where
  "appended s s' = (take (length (events s)) (events s') = events s)"

definition terminalSince :: "monitor \<Rightarrow> monitor \<Rightarrow> event list" where
  "terminalSince s s' = filter isTerminalEvent (newEvents s s')"

text \<open>
  The terminal outcomes of the specification, with what each carries: external stop;
  timeout, with the index of the awaited stage and the number of executed stages;
  dispatch failure, with keyword, instruction and index of the stage; completion, with
  the number and the log of the executed stages.
\<close>

datatype outcome =
    ByStop
  | ByTimeout nat nat
  | ByFailure "jsstring option" "jsstring option" nat
  | ByCompletion nat "execution list"

text \<open>The lifecycle events by which the source reports an outcome.\<close>

fun reportOf :: "outcome \<Rightarrow> event list" where
  "reportOf ByStop = [Stopped]"
| "reportOf (ByTimeout c n) = [Stopped, Timeout c n]"
| "reportOf (ByFailure k i idx) = [ChainFailed k i idx, Stopped]"
| "reportOf (ByCompletion n xs) = [ChainComplete n xs, Stopped]"

text \<open>
  The events a dispatch emits when it ends after the run is over: \<open>chain_failed\<close> or
  \<open>chain_complete\<close>.
\<close>

fun isLateReport :: "event \<Rightarrow> bool" where
  "isLateReport (ChainFailed k i idx) = True"
| "isLateReport (ChainComplete n xs) = True"
| "isLateReport e = False"

text \<open>
  In the specification's words, a dispatch succeeds when one of its at most
  \<open>retryAttempts\<close> attempts is reported successful by the channel, and fails when all
  of them are exhausted.
\<close>

definition dispatchSucceeds :: "(nat \<Rightarrow> send_result) \<Rightarrow> rat \<Rightarrow> bool" where
  "dispatchSucceeds ch attempts =
     list_ex (\<lambda>k. ch k = SendOk) [1..<Suc (nat \<lfloor>attempts\<rfloor>)]"

text \<open>
  The outcome with which a step ends the run of an active monitor, read off the step
  and the state before it: a call of \<open>stop()\<close>; a timer tick that finds the timeout
  exceeded; the end of a dispatch that failed; the end of a successful dispatch of a
  stage without \<open>nextKeyword\<close>. Every other step leaves the run going.
\<close>

fun endedBy :: "async_action \<Rightarrow> monitor \<times> pending list \<Rightarrow> outcome option" where
  "endedBy StopCalled (s, ps) = Some ByStop"
| "endedBy (TimerFires t) (s, ps) =
     (if interval s \<noteq> None \<and>
         t - (case startTime s of None \<Rightarrow> 0 | Some t0 \<Rightarrow> t0) > timeout s
      then Some (ByTimeout (currentChainIndex s) (length (executedChains s)))
      else None)"
| "endedBy (DispatchEnds i ch) (s, ps) =
     (if i < length ps then
        (case ps ! i of
           PendingDispatch chainConfig \<Rightarrow>
             (if \<not> dispatchSucceeds ch (retryAttempts s) then
                Some (ByFailure (keyword (fst chainConfig)) (instruction (fst chainConfig))
                        (snd chainConfig))
              else if \<not> truthy (nextKeyword (fst chainConfig)) then
                Some (ByCompletion (length (executedChains s)) (executedChains s))
              else None)
         | PendingRead k \<Rightarrow> None)
      else None)"
| "endedBy (ReadAnswers i t r) (s, ps) = None"

text \<open>
  The first step of a run that ends it, from an active monitor: its outcome and what
  is still in flight right after it.
\<close>

fun endOfRun ::
  "async_action list \<Rightarrow> monitor \<times> pending list \<Rightarrow> (outcome \<times> pending list) option" where
  "endOfRun [] st = None"
| "endOfRun (a # acts) st =
     (case endedBy a st of
        Some c \<Rightarrow> Some (c, snd (asyncStep a st))
      | None \<Rightarrow> endOfRun acts (asyncStep a st))"

text \<open>The same for a run from \<open>start()\<close>, whose immediate check may time out at once.\<close>

fun runEnd ::
  "int \<Rightarrow> int \<Rightarrow> async_action list \<Rightarrow> monitor \<times> pending list
     \<Rightarrow> (outcome \<times> pending list) option" where
  "runEnd t0 t acts (s, ps) =
     (if t - t0 > timeout s
      then Some (ByTimeout (currentChainIndex s) (length (executedChains s)), ps)
      else endOfRun acts (asyncStart t0 t (s, ps)))"

subsection \<open>Consumed keywords\<close>

text \<open>The executions of the stage of keyword \<open>K\<close>.\<close>

definition executionsOf :: "jsstring \<Rightarrow> monitor \<Rightarrow> execution list" where
  "executionsOf K s = filter (\<lambda>e. exKeyword e = Some K) (executedChains s)"

text \<open>The buffer a poll cycle scans: the old buffer and the output just read.\<close>

definition scannedBuffer :: "poll_env \<Rightarrow> monitor \<Rightarrow> jsstring" where
  "scannedBuffer env s =
     (case readResult env of
        ReadOk out \<Rightarrow> sliceLast 10000 (outputBuffer s) @ unwrapOutput out
      | _ \<Rightarrow> outputBuffer s)"

text \<open>Every entry of \<open>keywordMap\<close> stands under the keyword of its own stage.\<close>

definition keyedByKeyword :: "monitor \<Rightarrow> bool" where
  "keyedByKeyword s = list_all (\<lambda>(kw, c, i). keyword c = kw) (keywordMap s)"

text \<open>
  In addition no keyword stands twice in \<open>keywordMap\<close>, and a keyword with a recorded
  position has had its stage executed. Every monitor that the constructor returns is
  in such a state, and so is every state of its runs.
\<close>

definition consumedInv :: "monitor \<Rightarrow> bool" where
  "consumedInv s =
     (keyedByKeyword s \<and> distinct (map fst (keywordMap s)) \<and>
      list_all (\<lambda>(kw, c, i).
          mapGet kw (lastDetectedPosition s) \<noteq> None \<longrightarrow>
          list_ex (\<lambda>e. exKeyword e = kw \<and> exChainIndex e = i) (executedChains s))
        (keywordMap s))"

subsection \<open>The example configuration of the source\<close>

text \<open>The two-stage configuration printed by the usage text of \<open>main()\<close>, without options.\<close>

definition demoConfig :: config where
  "demoConfig =
     \<lparr>cfgInstanceId = Some (asc ''spec_1_1_123456''),
      cfgChains = Some
        [\<lparr>keyword = Some (asc ''STAGE1_COMPLETE''),
          instruction = Some (asc ''Now execute stage 2: Create the implementation plan''),
          nextKeyword = Some (asc ''STAGE2_COMPLETE'')\<rparr>,
         \<lparr>keyword = Some (asc ''STAGE2_COMPLETE''),
          instruction = Some (asc ''Execute stage 3: Begin implementation''),
          nextKeyword = None\<rparr>],
      cfgOptions = None\<rparr>"

definition demoMonitor :: monitor where
  "demoMonitor = projr (constructor demoConfig)"

text \<open>The channel at time \<open>t\<close>: the read answers with \<open>r\<close>, every send succeeds.\<close>

definition channelAt :: "int \<Rightarrow> read_result \<Rightarrow> poll_env" where
  "channelAt t r = \<lparr>now = t, readResult = r, sendResult = (\<lambda>k. SendOk)\<rparr>"

text \<open>
  The channel at time 0 when the session of the example monitor does not exist: the
  answer \<open>readFromInstance\<close> gives then.
\<close>

definition demoFailedRead :: poll_env where
  "demoFailedRead =
     channelAt 0 (ReadFailed (Some (asc ''Session claude_spec_1_1_123456 does not exist'')))"

text \<open>What the duplicate guard of \<open>executeChainAction\<close> compares: keyword and stage index.\<close>

definition stageKey :: "execution \<Rightarrow> jsstring option \<times> nat" where
  "stageKey e = (exKeyword e, exChainIndex e)"

text \<open>
  Two states of the example monitor after its first poll cycle has consumed the first
  keyword: at offset 0 of the buffer, and at offset 1 behind a line feed.
\<close>

definition demoConsumedAt0 :: monitor where
  "demoConsumedAt0 =
     startAndCheck 0 (channelAt 1000 (ReadOk (asc ''STAGE1_COMPLETE''))) demoMonitor"

definition demoConsumedAt1 :: monitor where
  "demoConsumedAt1 =
     startAndCheck 0 (channelAt 1000 (ReadOk (0x0A # asc ''STAGE1_COMPLETE''))) demoMonitor"

text \<open>
  A run of the example monitor: started at time 0, the immediate check reads a line
  with the first keyword, the tick at 6000 ms reads a line with the second.
\<close>

definition demoRun :: monitor where
  "demoRun =
     runMonitor 0 (channelAt 1000 (ReadOk (0x0A # asc ''STAGE1_COMPLETE'')))
       [Tick (channelAt 6000 (ReadOk (0x0A # asc ''STAGE2_COMPLETE'')))] demoMonitor"

text \<open>
  A run of the example monitor in which \<open>stop()\<close> is called while the read of the
  immediate check is in flight; the read then answers with the second keyword and the
  dispatch succeeds.
\<close>

definition demoStoppedEarly :: "monitor \<times> pending list" where
  "demoStoppedEarly =
     asyncRun 0 0
       [StopCalled, ReadAnswers 0 1000 (ReadOk (asc ''STAGE2_COMPLETE'')),
        DispatchEnds 0 (\<lambda>k. SendOk)] (demoMonitor, [])"

section \<open>Properties of the string operations\<close>

lemma length_asc [simp]: "length (asc s) = length s"
  by (simp add: asc_def)

lemma includes_str_length: "includes_str s p \<Longrightarrow> length p \<le> length s"
  by (induction s) (auto dest: prefix_length_le)

lemma replaceFirst_prefix: "replaceFirst (p @ s) p [] = s"
proof (cases "p @ s")
  case Nil
  then show ?thesis by simp
next
  case (Cons a list)
  have "prefix p (a # list)"
    using Cons by (metis prefixI)
  moreover have "drop (length p) (a # list) = s"
    using Cons by (metis append_eq_conv_conj)
  ultimately show ?thesis
    using Cons by simp
qed

lemma dropWhile_same_length:
  assumes "length (dropWhile P xs) = length xs"
  shows "dropWhile P xs = xs"
proof (cases xs)
  case Nil
  then show ?thesis by simp
next
  case (Cons x ys)
  show ?thesis
  proof (cases "P x")
    case True
    have "length (dropWhile P ys) \<le> length ys"
      by (rule length_dropWhile_le)
    with assms Cons True show ?thesis by simp
  next
    case False
    with Cons show ?thesis by simp
  qed
qed

lemma length_trim_le: "length (trim s) \<le> length s"
proof -
  have "length (dropWhile isWhiteSpace (rev (dropWhile isWhiteSpace s)))
        \<le> length (rev (dropWhile isWhiteSpace s))"
    by (rule length_dropWhile_le)
  also have "\<dots> \<le> length s"
    by (simp add: length_dropWhile_le)
  finally show ?thesis
    by (simp add: trim_def)
qed

text \<open>Trimming either leaves a string as it is or makes it strictly shorter.\<close>

lemma trim_shorter: "trim s \<noteq> s \<Longrightarrow> length (trim s) < length s"
proof (rule ccontr)
  assume ne: "trim s \<noteq> s" and "\<not> length (trim s) < length s"
  with length_trim_le [of s] have eq: "length (trim s) = length s" by simp
  let ?a = "dropWhile isWhiteSpace s"
  let ?b = "dropWhile isWhiteSpace (rev ?a)"
  have b: "length ?b \<le> length ?a"
    using length_dropWhile_le [of isWhiteSpace "rev ?a"] by simp
  have a: "length ?a \<le> length s"
    by (rule length_dropWhile_le)
  from eq have "length ?b = length s" by (simp add: trim_def)
  with a b have la: "length ?a = length s" and lb: "length ?b = length (rev ?a)" by simp_all
  from la have "?a = s" by (rule dropWhile_same_length)
  moreover from lb have "?b = rev ?a" by (rule dropWhile_same_length)
  ultimately have "trim s = s" by (simp add: trim_def)
  with ne show False by simp
qed

lemma length_stripMarker_le: "length (stripMarker t) \<le> length t"
  by (cases t) (auto intro: le_SucI length_dropWhile_le)

section \<open>The completion-signal detector\<close>

text \<open>
  A line no longer than the keyword cannot contain \<open>'with ' + keyword\<close> and the like, so
  only the keyword-independent patterns can reject it.
\<close>

lemma ignored_short:
  assumes "length t \<le> length K"
  shows "list_ex (includes_str t) (ignoredPatterns K) = list_ex (includes_str t) fixedPatterns"
proof -
  have "\<not> includes_str t (asc p @ K)" if "p \<noteq> []" for p
    using includes_str_length [of t "asc p @ K"] assms that by (cases p) auto
  then show ?thesis
    by (simp add: ignoredPatterns_def fixedPatterns_def)
qed

text \<open>
  C1, as stated: \<open>isActualCompletionSignal(K, K)\<close> is true for every keyword \<open>K\<close>.
  It fails for a keyword that contains one of the rejected substrings: the keyword
  \<open>Created\<close> contains \<open>Create\<close>, and the rejection loop runs before any acceptance test.
\<close>

theorem self_signal_counterexample:
  "\<not> isActualCompletionSignal (asc ''Created'') (asc ''Created'')"
  by code_simp

text \<open>
  C1, amended: a keyword standing alone on a line is accepted exactly when it has no
  leading or trailing whitespace, contains none of the keyword-independent rejected
  substrings and does not begin like a numbered list item (digits, then a full stop).
  This covers keywords that end with a colon as well.
\<close>

theorem self_signal_iff:
  "isActualCompletionSignal K K \<longleftrightarrow>
     trim K = K \<and> \<not> list_ex (includes_str K) fixedPatterns \<and> \<not> numberedListItem K"
proof (cases "trim K = K")
  case True
  then show ?thesis
    by (simp add: isActualCompletionSignal_def ignored_short keywordPattern_def)
next
  case False
  then have lt: "length (trim K) < length K" by (rule trim_shorter)
  have "\<not> prefix K (trim K)"
    using lt by (auto dest: prefix_length_le)
  moreover have "\<not> prefix K (stripMarker (trim K))"
    using lt length_stripMarker_le [of "trim K"] by (auto dest: prefix_length_le)
  moreover have "\<not> suffix K (trim K)"
    using lt by (auto dest: suffix_length_le)
  moreover have "trim K \<noteq> marker # 0x20 # K"
    using lt by auto
  ultimately show ?thesis
    using False by (simp add: isActualCompletionSignal_def keywordPattern_def endsWith_def Let_def)
qed

theorem self_signal_iff_witness:
  "trim (asc ''DONE'') = asc ''DONE'' \<and>
   \<not> list_ex (includes_str (asc ''DONE'')) fixedPatterns \<and>
   \<not> numberedListItem (asc ''DONE'') \<and>
   isActualCompletionSignal (asc ''DONE'') (asc ''DONE'')"
proof -
  have h: "trim (asc ''DONE'') = asc ''DONE'' \<and>
      \<not> list_ex (includes_str (asc ''DONE'')) fixedPatterns \<and>
      \<not> numberedListItem (asc ''DONE'')"
    by code_simp
  with self_signal_iff [of "asc ''DONE''"] show ?thesis by blast
qed

text \<open>
  C9, as stated: for a keyword not ending in a colon and a line that passes the
  rejection rules, a line that starts with the marker and ends with the keyword is
  accepted with up to 9 characters between marker and keyword. With exactly 9 characters
  between them the line has \<open>keyword.length + 10\<close> code units, and the source's test
  \<open>trimmedLine.length < keyword.length + 10\<close> rejects it.
\<close>

theorem accept_nine_between_counterexample:
  "\<not> endsWith (asc ''DONE'') (asc '':'') \<and>
   \<not> list_ex (includes_str (trim (marker # asc ''xxxxxxxxxDONE''))) (ignoredPatterns (asc ''DONE'')) \<and>
   \<not> numberedListItem (trim (marker # asc ''xxxxxxxxxDONE'')) \<and>
   trim (marker # asc ''xxxxxxxxxDONE'') = marker # asc ''xxxxxxxxx'' @ asc ''DONE'' \<and>
   length (asc ''xxxxxxxxx'') = 9 \<and>
   \<not> isActualCompletionSignal (marker # asc ''xxxxxxxxxDONE'') (asc ''DONE'')"
  by code_simp

text \<open>
  C9, amended: for a keyword \<open>K\<close> not ending in a colon and a line that passes the
  rejection rules, the line is accepted exactly when its trimmed form is \<open>K\<close>, or is the
  marker, then at most 8 further code units, then \<open>K\<close> (the marker itself counts towards
  the 9 extra code units the length test allows). The form "marker, space, keyword" is
  the case of one code unit in between. Every other line is rejected.
\<close>

theorem accept_iff:
  assumes "\<not> endsWith K (asc '':'')"
    and "\<not> list_ex (includes_str (trim L)) (ignoredPatterns K)"
    and "\<not> numberedListItem (trim L)"
  shows "isActualCompletionSignal L K \<longleftrightarrow>
     trim L = K \<or> (\<exists>mid. trim L = marker # mid @ K \<and> length mid \<le> 8)"
proof
  assume "isActualCompletionSignal L K"
  with assms consider "trim L = K" | "trim L = marker # 0x20 # K"
    | "prefix [marker] (trim L)" "suffix K (trim L)" "length (trim L) < length K + 10"
    by (auto simp: isActualCompletionSignal_def startsWith_def endsWith_def Let_def)
  then show "trim L = K \<or> (\<exists>mid. trim L = marker # mid @ K \<and> length mid \<le> 8)"
  proof cases
    case 1
    then show ?thesis by simp
  next
    case 2
    then have "trim L = marker # [0x20] @ K \<and> length [0x20::jschar] \<le> 8" by simp
    then show ?thesis by blast
  next
    case 3
    from 3(2) obtain pre where pre: "trim L = pre @ K"
      by (auto simp: suffix_def)
    show ?thesis
    proof (cases pre)
      case Nil
      with pre show ?thesis by simp
    next
      case (Cons c mid)
      with pre 3(1) have "c = marker" by simp
      moreover from pre Cons 3(3) have "length mid \<le> 8" by simp
      ultimately show ?thesis using pre Cons by auto
    qed
  qed
next
  assume "trim L = K \<or> (\<exists>mid. trim L = marker # mid @ K \<and> length mid \<le> 8)"
  then show "isActualCompletionSignal L K"
  proof
    assume "trim L = K"
    with assms show ?thesis by (simp add: isActualCompletionSignal_def)
  next
    assume "\<exists>mid. trim L = marker # mid @ K \<and> length mid \<le> 8"
    then obtain mid where m: "trim L = marker # mid @ K" "length mid \<le> 8" by blast
    have "suffix K (marker # mid @ K)"
      by (metis append_Cons suffixI)
    with m assms show ?thesis
      by (simp add: isActualCompletionSignal_def startsWith_def endsWith_def)
  qed
qed

theorem accept_iff_witness:
  "\<not> endsWith (asc ''DONE'') (asc '':'') \<and>
   \<not> list_ex (includes_str (trim (asc ''  '' @ marker # asc ''xxxxxxxxDONE '')))
        (ignoredPatterns (asc ''DONE'')) \<and>
   \<not> numberedListItem (trim (asc ''  '' @ marker # asc ''xxxxxxxxDONE '')) \<and>
   trim (asc ''  '' @ marker # asc ''xxxxxxxxDONE '') = marker # asc ''xxxxxxxx'' @ asc ''DONE'' \<and>
   isActualCompletionSignal (asc ''  '' @ marker # asc ''xxxxxxxxDONE '') (asc ''DONE'')"
proof -
  let ?L = "asc ''  '' @ marker # asc ''xxxxxxxxDONE ''"
  let ?K = "asc ''DONE''"
  have h1: "\<not> endsWith ?K (asc '':'')" by code_simp
  have h2: "\<not> list_ex (includes_str (trim ?L)) (ignoredPatterns ?K)" by code_simp
  have h3: "\<not> numberedListItem (trim ?L)" by code_simp
  have t: "trim ?L = marker # asc ''xxxxxxxx'' @ ?K" by code_simp
  have "length (asc ''xxxxxxxx'') \<le> 8" by simp
  with t have "trim ?L = ?K \<or> (\<exists>mid. trim ?L = marker # mid @ ?K \<and> length mid \<le> 8)"
    by blast
  with accept_iff [OF h1 h2 h3] have "isActualCompletionSignal ?L ?K" by simp
  with h1 h2 h3 t show ?thesis by simp
qed

section \<open>The retrying dispatcher\<close>

lemma attemptsFrom_empty: "m < a \<Longrightarrow> attemptsFrom d a m = []"
  by (simp add: attemptsFrom_def)

lemma attemptsFrom_single: "attemptsFrom d a a = [Send a]"
  by (simp add: attemptsFrom_def)

lemma attemptsFrom_step: "a < m \<Longrightarrow> attemptsFrom d a m = Send a # Wait d # attemptsFrom d (Suc a) m"
  by (simp add: attemptsFrom_def upt_conv_Cons)

lemma sendCount_attemptsFrom: "sendCount (attemptsFrom d a m) = Suc m - a"
proof (induction "Suc m - a" arbitrary: a)
  case 0
  then show ?case by (simp add: attemptsFrom_empty sendCount_def)
next
  case (Suc n)
  show ?case
  proof (cases "a < m")
    case True
    with Suc show ?thesis
      by (simp add: attemptsFrom_step sendCount_def)
  next
    case False
    with Suc have "a = m" by simp
    then show ?thesis by (simp add: attemptsFrom_single sendCount_def)
  qed
qed

lemma whole_le [simp]: "(of_nat a \<le> (of_int n :: rat)) = (int a \<le> n)"
  by (metis of_int_le_iff of_int_of_nat_eq)

lemma whole_less [simp]: "(of_nat a < (of_int n :: rat)) = (int a < n)"
  by (metis of_int_less_iff of_int_of_nat_eq)

text \<open>The loop for a whole-number \<open>retryAttempts\<close>.\<close>

lemma sendLoop_whole:
  "sendLoop ch (of_int n) d a =
     (if int a \<le> n then
        (case ch a of
           SendOk \<Rightarrow> (True, [Send a])
         | _ \<Rightarrow>
             (let waits = (if int a < n then [Wait d] else []);
                  (result, later) = sendLoop ch (of_int n) d (Suc a)
              in (result, Send a # waits @ later)))
      else (False, []))"
  by (simp add: sendLoop.simps [of ch "of_int n" d a])

lemma sendLoop_spec:
  "1 \<le> a \<Longrightarrow> sendLoop ch (of_int n) d a = (ok, acts) \<Longrightarrow>
     \<exists>m. a \<le> Suc m \<and> acts = attemptsFrom d a m \<and> int m \<le> max (int a - 1) n \<and>
       (ok \<longrightarrow> a \<le> m \<and> ch m = SendOk \<and> (\<forall>k. a \<le> k \<and> k < m \<longrightarrow> ch k \<noteq> SendOk)) \<and>
       (\<not> ok \<longrightarrow> int m = max (int a - 1) n \<and> (\<forall>k. a \<le> k \<and> int k \<le> n \<longrightarrow> ch k \<noteq> SendOk))"
proof (induction "nat (n + 1 - int a)" arbitrary: a ok acts rule: less_induct)
  case less
  note prems = less.prems
  show ?case
  proof (cases "int a \<le> n")
    case False
    with prems have r: "ok = False" "acts = []"
      by (simp_all add: sendLoop_whole [of ch n d a])
    have "acts = attemptsFrom d a (a - 1)"
      using prems(1) r by (simp add: attemptsFrom_empty)
    moreover have "int (a - 1) = max (int a - 1) n"
      using False prems(1) by simp
    ultimately show ?thesis
      using r False by (intro exI [of _ "a - 1"]) auto
  next
    case True
    show ?thesis
    proof (cases "ch a = SendOk")
      case ok: True
      with True prems have r: "ok = True" "acts = [Send a]"
        by (simp_all add: sendLoop_whole [of ch n d a])
      show ?thesis
        using r True ok by (intro exI [of _ a]) (auto simp: attemptsFrom_single)
    next
      case nok: False
      obtain r later where rec: "sendLoop ch (of_int n) d (Suc a) = (r, later)"
        by (cases "sendLoop ch (of_int n) d (Suc a)")
      let ?waits = "if int a < n then [Wait d] else []"
      from nok True rec prems(2) have res: "ok = r" "acts = Send a # ?waits @ later"
        by (cases "ch a"; simp add: sendLoop_whole [of ch n d a])+
      have smaller: "nat (n + 1 - int (Suc a)) < nat (n + 1 - int a)"
        using True by simp
      have "\<exists>m. Suc a \<le> Suc m \<and> later = attemptsFrom d (Suc a) m \<and> int m \<le> max (int (Suc a) - 1) n \<and>
         (r \<longrightarrow> Suc a \<le> m \<and> ch m = SendOk \<and> (\<forall>k. Suc a \<le> k \<and> k < m \<longrightarrow> ch k \<noteq> SendOk)) \<and>
         (\<not> r \<longrightarrow> int m = max (int (Suc a) - 1) n \<and> (\<forall>k. Suc a \<le> k \<and> int k \<le> n \<longrightarrow> ch k \<noteq> SendOk))"
        by (rule less.hyps [OF smaller _ rec]) simp
      then obtain m where m: "a \<le> m" "later = attemptsFrom d (Suc a) m" "int m \<le> max (int a) n"
        "r \<longrightarrow> Suc a \<le> m \<and> ch m = SendOk \<and> (\<forall>k. Suc a \<le> k \<and> k < m \<longrightarrow> ch k \<noteq> SendOk)"
        "\<not> r \<longrightarrow> int m = max (int a) n \<and> (\<forall>k. Suc a \<le> k \<and> int k \<le> n \<longrightarrow> ch k \<noteq> SendOk)"
        by auto
      have le: "int m \<le> n" using m(3) True by simp
      have acts: "acts = attemptsFrom d a m"
      proof (cases "a < m")
        case True
        with le have "int a < n" by simp
        with res m(2) True show ?thesis by (simp add: attemptsFrom_step)
      next
        case False
        with m(1) have am: "a = m" by simp
        with m(4) have "\<not> r" by auto
        with m(5) am True have "int a = n" by simp
        with res m(2) am show ?thesis
          by (simp add: attemptsFrom_single attemptsFrom_empty)
      qed
      have c1: "a \<le> Suc m" using m(1) by simp
      have c3: "int m \<le> max (int a - 1) n" using le by simp
      have c4: "ok \<longrightarrow> a \<le> m \<and> ch m = SendOk \<and> (\<forall>k. a \<le> k \<and> k < m \<longrightarrow> ch k \<noteq> SendOk)"
      proof
        assume ok
        with res m(4) have h: "Suc a \<le> m" "ch m = SendOk"
          "\<forall>k. Suc a \<le> k \<and> k < m \<longrightarrow> ch k \<noteq> SendOk" by simp_all
        have "ch k \<noteq> SendOk" if "a \<le> k \<and> k < m" for k
        proof (cases "k = a")
          case True
          with nok show ?thesis by simp
        next
          case False
          with that have "Suc a \<le> k \<and> k < m" by simp
          with h(3) show ?thesis by blast
        qed
        with h show "a \<le> m \<and> ch m = SendOk \<and> (\<forall>k. a \<le> k \<and> k < m \<longrightarrow> ch k \<noteq> SendOk)"
          by simp
      qed
      have c5: "\<not> ok \<longrightarrow> int m = max (int a - 1) n \<and> (\<forall>k. a \<le> k \<and> int k \<le> n \<longrightarrow> ch k \<noteq> SendOk)"
      proof
        assume "\<not> ok"
        with res m(5) have h: "int m = max (int a) n"
          "\<forall>k. Suc a \<le> k \<and> int k \<le> n \<longrightarrow> ch k \<noteq> SendOk" by simp_all
        have "ch k \<noteq> SendOk" if "a \<le> k \<and> int k \<le> n" for k
        proof (cases "k = a")
          case True
          with nok show ?thesis by simp
        next
          case False
          with that have "Suc a \<le> k \<and> int k \<le> n" by simp
          with h(2) show ?thesis by blast
        qed
        moreover have "int m = max (int a - 1) n" using h(1) True by simp
        ultimately show "int m = max (int a - 1) n \<and> (\<forall>k. a \<le> k \<and> int k \<le> n \<longrightarrow> ch k \<noteq> SendOk)"
          by simp
      qed
      from c1 acts c3 c4 c5 show ?thesis by blast
    qed
  qed
qed

text \<open>
  For a whole-number \<open>retryAttempts\<close> the retry policy holds: \<open>m\<close> attempts, at most
  \<open>retryAttempts\<close>; the channel actions are those attempts with a wait of \<open>retryDelay\<close>
  between consecutive ones and none after the last; success exactly at the first
  attempt the channel reports successful; failure only after all attempts, none of
  them successful. An attempt that reports failure and one that throws are treated alike.
\<close>

lemma send_retry_whole:
  "let (ok, acts) = sendInstructionWithRetry ch (of_int n) d; m = sendCount acts in
     int m \<le> max 0 n \<and> acts = attemptsWithWaits d m \<and>
     (ok \<longrightarrow> 1 \<le> m \<and> ch m = SendOk \<and> (\<forall>k. 1 \<le> k \<and> k < m \<longrightarrow> ch k \<noteq> SendOk)) \<and>
     (\<not> ok \<longrightarrow> int m = max 0 n \<and> (\<forall>k. 1 \<le> k \<and> int k \<le> n \<longrightarrow> ch k \<noteq> SendOk))"
proof -
  obtain ok acts where r: "sendInstructionWithRetry ch (of_int n) d = (ok, acts)"
    by (cases "sendInstructionWithRetry ch (of_int n) d")
  then have "sendLoop ch (of_int n) d 1 = (ok, acts)"
    by (simp add: sendInstructionWithRetry_def)
  from sendLoop_spec [OF _ this] obtain m where m: "acts = attemptsFrom d 1 m" "int m \<le> max 0 n"
    "ok \<longrightarrow> 1 \<le> m \<and> ch m = SendOk \<and> (\<forall>k. 1 \<le> k \<and> k < m \<longrightarrow> ch k \<noteq> SendOk)"
    "\<not> ok \<longrightarrow> int m = max 0 n \<and> (\<forall>k. 1 \<le> k \<and> int k \<le> n \<longrightarrow> ch k \<noteq> SendOk)"
    by auto
  have "sendCount acts = m"
    using m(1) by (simp add: sendCount_attemptsFrom)
  with m r show ?thesis
    by (simp add: attemptsWithWaits_def)
qed

text \<open>
  C3 says that the dispatch waits between consecutive attempts but not after the last
  one; the source's comment says the same (\<open>Wait before retry (except on last
  attempt)\<close>). The constructor takes \<open>options.retryAttempts = 2.5\<close> as it is. With
  that and a channel that fails every time, the loop makes attempts 1 and 2 and waits
  after both: after attempt 2 the test \<open>attempt < this.retryAttempts\<close> is \<open>2 < 2.5\<close>,
  so the dispatch waits once more and then returns failure without another attempt.
\<close>

theorem fractional_attempts_wait_after_last:
  "retryAttempts (projr (constructor (demoConfig\<lparr>cfgOptions :=
       Some \<lparr>optPollInterval = None, optTimeout = None,
             optRetryAttempts = Some (5 / 2), optRetryDelay = None\<rparr>\<rparr>))) = 5 / 2 \<and>
   retryDelay (projr (constructor (demoConfig\<lparr>cfgOptions :=
       Some \<lparr>optPollInterval = None, optTimeout = None,
             optRetryAttempts = Some (5 / 2), optRetryDelay = None\<rparr>\<rparr>))) = 2000 \<and>
   sendInstructionWithRetry (\<lambda>k. SendFail) (5 / 2) 2000 =
     (False, [Send 1, Wait 2000, Send 2, Wait 2000]) \<and>
   [Send 1, Wait 2000, Send 2, Wait 2000] \<noteq> attemptsWithWaits 2000 2"
  by (simp add: constructor_def demoConfig_def truthy_def orDefault_def asc_def
      sendInstructionWithRetry_def sendLoop.simps [of _ "5 / 2"]
      attemptsWithWaits_def attemptsFrom_def upt_conv_Cons)

section \<open>Instance identifiers and session names\<close>

text \<open>
  C10: for every instance identifier that does not start with \<open>claude_\<close>, converting it to
  a session name and back yields the identifier again.
\<close>

theorem session_name_roundtrip:
  "\<not> startsWith ident (asc ''claude_'') \<Longrightarrow>
     sessionNameToInstanceId (instanceIdToSessionName ident) = ident"
  by (simp add: sessionNameToInstanceId_def instanceIdToSessionName_def normalizeInstanceId_def
      startsWith_def replaceFirst_prefix)

theorem session_name_roundtrip_witness:
  "\<not> startsWith (asc ''spec_1_1_123456'') (asc ''claude_'') \<and>
   instanceIdToSessionName (asc ''spec_1_1_123456'') = asc ''claude_spec_1_1_123456'' \<and>
   sessionNameToInstanceId (instanceIdToSessionName (asc ''spec_1_1_123456'')) =
     asc ''spec_1_1_123456''"
proof -
  have h: "\<not> startsWith (asc ''spec_1_1_123456'') (asc ''claude_'')" by code_simp
  have n: "instanceIdToSessionName (asc ''spec_1_1_123456'') = asc ''claude_spec_1_1_123456''"
    by code_simp
  from h n session_name_roundtrip [OF h] show ?thesis by simp
qed

section \<open>Construction and start of the monitor\<close>

lemma demoMonitor_fields:
  "constructor demoConfig = Inr demoMonitor"
  "\<not> isActive demoMonitor"
  "timeout demoMonitor = 600000"
  "pollInterval demoMonitor = 5000"
  "pollCount demoMonitor = 0"
  "events demoMonitor = []"
  "console demoMonitor = []"
  "currentKeyword demoMonitor = Some (asc ''STAGE1_COMPLETE'')"
  by (simp_all add: demoMonitor_def constructor_def demoConfig_def truthy_def orDefault_def asc_def)

text \<open>
  C7, as stated: a structurally invalid chain definition makes the constructor raise a
  configuration error. The constructor accepts an empty chains list, a stage that has
  neither keyword nor instruction, and a stage whose \<open>nextKeyword\<close> names no stage.
\<close>

theorem constructor_accepts_invalid_chains_counterexample:
  "\<not> isl (constructor (demoConfig\<lparr>cfgChains := Some []\<rparr>)) \<and>
   \<not> isl (constructor (demoConfig\<lparr>cfgChains :=
        Some [\<lparr>keyword = None, instruction = None, nextKeyword = None\<rparr>]\<rparr>)) \<and>
   \<not> isl (constructor (demoConfig\<lparr>cfgChains :=
        Some [\<lparr>keyword = Some (asc ''STAGE1_COMPLETE''), instruction = Some (asc ''go on''),
               nextKeyword = Some (asc ''NO_SUCH_STAGE'')\<rparr>,
              \<lparr>keyword = Some (asc ''STAGE2_COMPLETE''), instruction = Some (asc ''finish''),
               nextKeyword = None\<rparr>]\<rparr>))"
  by (simp add: constructor_def demoConfig_def truthy_def asc_def)

text \<open>
  C7, amended: the constructor raises an error, so that no monitor exists on which
  \<open>start()\<close> could be called, exactly when \<open>instanceId\<close> is missing or empty or \<open>chains\<close>
  is missing or not an array. Every chains array is accepted as it is: empty, with
  stages that lack keyword or instruction, with keywords that do not link up.
\<close>

theorem constructor_error_iff:
  "(constructor cfg = Inl (Error (asc ''Missing required config: instanceId'')) \<longleftrightarrow>
      \<not> truthy (cfgInstanceId cfg)) \<and>
   (constructor cfg = Inl (Error (asc ''Missing required config: chains array'')) \<longleftrightarrow>
      truthy (cfgInstanceId cfg) \<and> cfgChains cfg = None) \<and>
   (truthy (cfgInstanceId cfg) \<and> cfgChains cfg = Some cs \<longrightarrow>
      (\<exists>m. constructor cfg = Inr m \<and> chains m = cs \<and> \<not> isActive m \<and> events m = []))"
  by (auto simp: constructor_def Let_def asc_def split: option.splits)

theorem constructor_error_iff_witness:
  "constructor (demoConfig\<lparr>cfgInstanceId := Some []\<rparr>) =
     Inl (Error (asc ''Missing required config: instanceId'')) \<and>
   constructor (demoConfig\<lparr>cfgChains := None\<rparr>) =
     Inl (Error (asc ''Missing required config: chains array'')) \<and>
   chains (projr (constructor (demoConfig\<lparr>cfgChains := Some []\<rparr>))) = []"
proof -
  have a: "\<not> truthy (cfgInstanceId (demoConfig\<lparr>cfgInstanceId := Some []\<rparr>))"
    by (simp add: truthy_def)
  have b: "truthy (cfgInstanceId (demoConfig\<lparr>cfgChains := None\<rparr>)) \<and>
      cfgChains (demoConfig\<lparr>cfgChains := None\<rparr>) = None"
    by (simp add: truthy_def demoConfig_def asc_def)
  have c: "truthy (cfgInstanceId (demoConfig\<lparr>cfgChains := Some []\<rparr>)) \<and>
      cfgChains (demoConfig\<lparr>cfgChains := Some []\<rparr>) = Some []"
    by (simp add: truthy_def demoConfig_def asc_def)
  from a constructor_error_iff [of "demoConfig\<lparr>cfgInstanceId := Some []\<rparr>"]
  have 1: "constructor (demoConfig\<lparr>cfgInstanceId := Some []\<rparr>) =
      Inl (Error (asc ''Missing required config: instanceId''))" by blast
  from b constructor_error_iff [of "demoConfig\<lparr>cfgChains := None\<rparr>"]
  have 2: "constructor (demoConfig\<lparr>cfgChains := None\<rparr>) =
      Inl (Error (asc ''Missing required config: chains array''))" by blast
  from c constructor_error_iff [of "demoConfig\<lparr>cfgChains := Some []\<rparr>" "[]"]
  obtain m where "constructor (demoConfig\<lparr>cfgChains := Some []\<rparr>) = Inr m" "chains m = []"
    by blast
  then have 3: "chains (projr (constructor (demoConfig\<lparr>cfgChains := Some []\<rparr>))) = []"
    by simp
  from 1 2 3 show ?thesis by simp
qed

text \<open>
  C8, as stated: \<open>start()\<close> on an active monitor fails with an error. The source logs a
  warning and returns; no error is raised.
\<close>

theorem start_while_active_counterexample:
  "isActive (fst (projr (start 0 0 demoMonitor))) \<and>
   \<not> isl (start 5000 5000 (fst (projr (start 0 0 demoMonitor))))"
  by (simp add: start_def checkOutputBegin_def Let_def demoMonitor_fields split: prod.splits)

text \<open>
  C8, amended: \<open>start()\<close> on an active monitor raises nothing; it logs a warning and
  leaves the state as it is (no event, no poll). On a monitor that is not active it
  records \<open>startTime\<close>, sets the monitor active, schedules the recurring poll at
  \<open>pollInterval\<close>, begins one immediate poll (which now waits for its read) and emits
  \<open>started\<close>. Should that first poll find the timeout exceeded already, it stops the
  monitor again before \<open>started\<close> is emitted.
\<close>

theorem start_behaviour:
  "(isActive s \<longrightarrow>
      start t0 t s = Inr (s\<lparr>console := console s @ [WarnAlreadyRunning]\<rparr>, CheckDone)) \<and>
   (\<not> isActive s \<and> t - t0 \<le> timeout s \<longrightarrow>
      start t0 t s =
        Inr (s\<lparr>isActive := True, startTime := Some t0, interval := Some (pollInterval s),
                pollCount := Suc (pollCount s), events := events s @ [Started]\<rparr>, AwaitingRead)) \<and>
   (\<not> isActive s \<and> t - t0 > timeout s \<longrightarrow>
      start t0 t s =
        Inr (s\<lparr>isActive := False, startTime := Some t0, interval := None,
                pollCount := Suc (pollCount s),
                events := events s @
                  [Stopped, Timeout (currentChainIndex s) (length (executedChains s)), Started]\<rparr>,
             CheckDone))"
  by (simp add: start_def checkOutputBegin_def stop_def Let_def)

theorem start_behaviour_witness:
  "start 0 0 demoMonitor =
     Inr (demoMonitor\<lparr>isActive := True, startTime := Some 0, interval := Some 5000,
            pollCount := 1, events := [Started]\<rparr>, AwaitingRead) \<and>
   start 5000 5000 (demoMonitor\<lparr>isActive := True\<rparr>) =
     Inr (demoMonitor\<lparr>isActive := True, console := [WarnAlreadyRunning]\<rparr>, CheckDone) \<and>
   events (fst (projr (start 0 1 (demoMonitor\<lparr>timeout := 0\<rparr>)))) =
     [Stopped, Timeout 0 0, Started]"
proof -
  have a: "\<not> isActive demoMonitor \<and> 0 - 0 \<le> timeout demoMonitor"
    by (simp add: demoMonitor_fields)
  with start_behaviour [of demoMonitor 0 0]
  have 1: "start 0 0 demoMonitor =
     Inr (demoMonitor\<lparr>isActive := True, startTime := Some 0, interval := Some 5000,
            pollCount := 1, events := [Started]\<rparr>, AwaitingRead)"
    by (simp add: demoMonitor_fields)
  have b: "isActive (demoMonitor\<lparr>isActive := True\<rparr>)" by simp
  with start_behaviour [of "demoMonitor\<lparr>isActive := True\<rparr>" 5000 5000]
  have 2: "start 5000 5000 (demoMonitor\<lparr>isActive := True\<rparr>) =
     Inr (demoMonitor\<lparr>isActive := True, console := [WarnAlreadyRunning]\<rparr>, CheckDone)"
    by (simp add: demoMonitor_fields)
  have c: "\<not> isActive (demoMonitor\<lparr>timeout := 0\<rparr>) \<and>
      1 - 0 > timeout (demoMonitor\<lparr>timeout := 0\<rparr>)"
    by (simp add: demoMonitor_fields)
  with start_behaviour [of "demoMonitor\<lparr>timeout := 0\<rparr>" 0 1]
  have 3: "events (fst (projr (start 0 1 (demoMonitor\<lparr>timeout := 0\<rparr>)))) =
     [Stopped, Timeout 0 0, Started]"
    by (simp add: demoMonitor_fields demoMonitor_def constructor_def demoConfig_def truthy_def
        asc_def)
  from 1 2 3 show ?thesis by simp
qed

section \<open>The pieces of a poll cycle\<close>

text \<open>The pieces between the awaits, put together again, are the functions of the source.\<close>

lemma executeChainAction_split:
  "executeChainAction env cc s =
     (case executeBegin (now env) cc s of
        (s1, begun) \<Rightarrow> if begun then executeFinish (sendResult env) cc s1 else s1)"
  by (simp add: executeChainAction_def executeBegin_def executeFinish_def Let_def
      split: prod.splits)

lemma checkEntries_scan:
  "checkEntries env es s =
     (case scanEntries es s of
        (s1, NothingDetected) \<Rightarrow> (s1, None)
      | (s1, ScanThrew e) \<Rightarrow> (s1, Some e)
      | (s1, DetectedEntry cc) \<Rightarrow> (executeChainAction env cc s1, None))"
proof (induction es arbitrary: s)
  case Nil
  show ?case by simp
next
  case (Cons entry es)
  obtain kw cc where entry: "entry = (kw, cc)" by (cases entry)
  show ?case
  proof (cases "detectKeywordInOutput kw s")
    case (Inl e)
    with entry show ?thesis by simp
  next
    case (Inr r)
    obtain d s' where r: "r = (d, s')" by (cases r)
    with entry Inr Cons.IH [of s'] show ?thesis by (cases d) simp_all
  qed
qed

lemma dropAt_single [simp]: "dropAt 0 [x] = []"
  by (simp add: dropAt_def)

lemma resume_steps:
  "fold asyncStep [ReadAnswers 0 (now env) (readResult env), DispatchEnds 0 (sendResult env)]
     (s, [PendingRead k]) =
   (case checkOutputResume env s of
      (s', None) \<Rightarrow> (s', [])
    | (s', Some e) \<Rightarrow> (rejectCheck k e s', []))"
proof (cases "readResult env")
  case (ReadOk out)
  let ?s1 = "s\<lparr>outputBuffer := sliceLast 10000 (outputBuffer s) @ unwrapOutput out\<rparr>"
  obtain s2 r where sc: "scanEntries (keywordMap ?s1) ?s1 = (s2, r)"
    by (cases "scanEntries (keywordMap ?s1) ?s1")
  show ?thesis
  proof (cases r)
    case NothingDetected
    with ReadOk sc show ?thesis
      by (simp add: readAnswers_def checkOutputResume_def checkForKeywords_def checkEntries_scan)
  next
    case (ScanThrew e)
    with ReadOk sc show ?thesis
      by (simp add: readAnswers_def checkOutputResume_def checkForKeywords_def checkEntries_scan)
  next
    case (DetectedEntry cc)
    obtain s3 begun where b: "executeBegin (now env) cc s2 = (s3, begun)"
      by (cases "executeBegin (now env) cc s2")
    with ReadOk sc DetectedEntry show ?thesis
      by (cases begun)
        (simp_all add: readAnswers_def checkOutputResume_def checkForKeywords_def
          checkEntries_scan executeChainAction_split)
  qed
next
  case (ReadFailed msg)
  then show ?thesis by (simp add: readAnswers_def checkOutputResume_def)
next
  case (ReadThrew e)
  then show ?thesis by (simp add: readAnswers_def checkOutputResume_def)
qed

lemma idle_answers [simp]:
  "asyncStep (ReadAnswers i t r) (s, []) = (s, [])"
  "asyncStep (DispatchEnds i ch) (s, []) = (s, [])"
  by simp_all

lemma poll_steps: "fold asyncStep (wholePoll env) (s, []) = (intervalTick env s, [])"
proof (cases "interval s = None")
  case True
  then show ?thesis by (simp add: wholePoll_def intervalTick_def)
next
  case False
  obtain s1 ph where b: "checkOutputBegin (now env) s = (s1, ph)"
    by (cases "checkOutputBegin (now env) s")
  show ?thesis
  proof (cases ph)
    case CheckDone
    with b False show ?thesis
      by (auto simp: wholePoll_def intervalTick_def checkOutput_def)
  next
    case AwaitingRead
    have "fold asyncStep (wholePoll env) (s, []) =
        fold asyncStep [ReadAnswers 0 (now env) (readResult env), DispatchEnds 0 (sendResult env)]
          (s1, [PendingRead Scheduled])"
      using b False AwaitingRead by (auto simp: wholePoll_def)
    also have "\<dots> = (intervalTick env s, [])"
      using b False AwaitingRead
      by (simp only: resume_steps)
        (auto simp: intervalTick_def checkOutput_def rejectCheck_def split: prod.splits option.splits)
    finally show ?thesis .
  qed
qed

lemma start_steps:
  "fold asyncStep [ReadAnswers 0 (now env) (readResult env), DispatchEnds 0 (sendResult env)]
     (asyncStart t0 (now env) (s, [])) = (startAndCheck t0 env s, [])"
proof (cases "start t0 (now env) s")
  case (Inl e)
  then show ?thesis by (simp add: startAndCheck_def)
next
  case (Inr r)
  obtain s1 ph where r: "r = (s1, ph)" by (cases r)
  show ?thesis
  proof (cases ph)
    case CheckDone
    with Inr r show ?thesis by (simp add: startAndCheck_def)
  next
    case AwaitingRead
    with Inr r show ?thesis
      by (simp only: asyncStart.simps startAndCheck_def sum.case prod.case check_phase.case
          append_Nil
          resume_steps)
        (simp add: immediateCheckResume_def rejectCheck_def split: prod.splits option.splits)
  qed
qed

lemma perform_steps: "fold asyncStep (stepsOf a) (s, []) = (perform a s, [])"
  by (cases a) (simp_all add: poll_steps)

lemma fold_perform_steps:
  "fold asyncStep (concat (map stepsOf acts)) (s, []) = (fold perform acts s, [])"
  by (induction acts arbitrary: s) (simp_all add: perform_steps)

text \<open>A run whose poll cycles run to completion is the run of its steps.\<close>

lemma run_steps:
  "asyncRun t0 (now env) (runSteps env acts) (s, []) = (runMonitor t0 env acts s, [])"
proof -
  let ?first = "[ReadAnswers 0 (now env) (readResult env), DispatchEnds 0 (sendResult env)]"
  have "asyncRun t0 (now env) (runSteps env acts) (s, []) =
      fold asyncStep (concat (map stepsOf acts))
        (fold asyncStep ?first (asyncStart t0 (now env) (s, [])))"
    unfolding asyncRun_def runSteps_def fold_append by simp
  also have "\<dots> = fold asyncStep (concat (map stepsOf acts)) (startAndCheck t0 env s, [])"
    by (simp only: start_steps)
  also have "\<dots> = (runMonitor t0 env acts s, [])"
    by (simp only: fold_perform_steps runMonitor_def)
  finally show ?thesis .
qed

section \<open>The recorded position of a keyword\<close>

lemma mapGet_mapSet: "mapGet k (mapSet k v m) = Some v"
  by (induction m) (auto simp: mapGet_def)

lemma mapGet_mapSet_other: "k' \<noteq> k \<Longrightarrow> mapGet k' (mapSet k v m) = mapGet k' m"
  by (induction m) (auto simp: mapGet_def)

lemma mapSet_keys: "set (map fst (mapSet k v m)) = insert k (set (map fst m))"
  by (induction k v m rule: mapSet.induct) (simp_all add: insert_commute)

lemma mapSet_distinct: "distinct (map fst m) \<Longrightarrow> distinct (map fst (mapSet k v m))"
proof (induction m)
  case Nil
  show ?case by simp
next
  case (Cons kv m)
  obtain k' v' where kv: "kv = (k', v')" by (cases kv)
  show ?case
  proof (cases "k' = k")
    case True
    with kv Cons.prems show ?thesis by simp
  next
    case False
    have "k' \<notin> set (map fst (mapSet k v m))"
      using kv Cons.prems False by (simp only: mapSet_keys) auto
    with kv False Cons show ?thesis by simp
  qed
qed

lemma mapSet_entries: "set (mapSet k v m) \<subseteq> insert (k, v) (set m)"
  by (induction k v m rule: mapSet.induct) (auto split: if_splits)

text \<open>What the constructor builds: every entry under its own keyword, no keyword twice.\<close>

lemma buildKeywordMap_keyed:
  "\<forall>(kw, c, i) \<in> set m. keyword c = kw \<Longrightarrow>
   \<forall>(kw, c, i) \<in> set (buildKeywordMap cs index m). keyword c = kw"
proof (induction cs arbitrary: index m)
  case Nil
  then show ?case by simp
next
  case (Cons c cs)
  have "\<forall>(kw, c', i) \<in> set (mapSet (keyword c) (c, index) m). keyword c' = kw"
    using Cons.prems mapSet_entries [of "keyword c" "(c, index)" m] by auto
  from Cons.IH [OF this] show ?case by simp
qed

lemma buildKeywordMap_distinct:
  "distinct (map fst m) \<Longrightarrow> distinct (map fst (buildKeywordMap cs index m))"
  by (induction cs arbitrary: index m) (simp_all add: mapSet_distinct)

lemma consumedInv_iff:
  "consumedInv s \<longleftrightarrow>
     (\<forall>(kw, c, i) \<in> set (keywordMap s). keyword c = kw) \<and>
     distinct (map fst (keywordMap s)) \<and>
     (\<forall>(kw, c, i) \<in> set (keywordMap s).
        mapGet kw (lastDetectedPosition s) \<noteq> None \<longrightarrow>
        (\<exists>e \<in> set (executedChains s). exKeyword e = kw \<and> exChainIndex e = i))"
  by (simp add: consumedInv_def keyedByKeyword_def list_all_iff list_ex_iff)

lemma keyedByKeyword_iff:
  "keyedByKeyword s \<longleftrightarrow> (\<forall>(kw, c, i) \<in> set (keywordMap s). keyword c = kw)"
  by (simp add: keyedByKeyword_def list_all_iff)

lemma consumedInv_constructor: "constructor cfg = Inr s \<Longrightarrow> consumedInv s"
proof -
  assume c: "constructor cfg = Inr s"
  then obtain cs where s: "keywordMap s = buildKeywordMap cs 0 []" "lastDetectedPosition s = []"
    by (auto simp: constructor_def Let_def split: if_splits option.splits)
  have "\<forall>(kw, c, i) \<in> set (buildKeywordMap cs 0 []). keyword c = kw"
    by (rule buildKeywordMap_keyed) simp
  moreover have "distinct (map fst (buildKeywordMap cs 0 []))"
    by (rule buildKeywordMap_distinct) simp
  ultimately show ?thesis
    using s by (simp add: consumedInv_iff mapGet_def)
qed

lemma consumedInv_cong:
  "keywordMap s' = keywordMap s \<Longrightarrow> lastDetectedPosition s' = lastDetectedPosition s \<Longrightarrow>
   executedChains s' = executedChains s \<Longrightarrow> consumedInv s' = consumedInv s"
  by (simp add: consumedInv_def keyedByKeyword_def)

text \<open>The fields that the steps outside the scan leave alone.\<close>

lemma stop_keeps:
  "keywordMap (stop s) = keywordMap s" "lastDetectedPosition (stop s) = lastDetectedPosition s"
  "executedChains (stop s) = executedChains s" "outputBuffer (stop s) = outputBuffer s"
  by (simp_all add: stop_def)

lemma checkOutputBegin_keeps:
  assumes "checkOutputBegin t s = (s1, ph)"
  shows "keywordMap s1 = keywordMap s" "lastDetectedPosition s1 = lastDetectedPosition s"
    "executedChains s1 = executedChains s" "outputBuffer s1 = outputBuffer s"
  using assms by (auto simp: checkOutputBegin_def Let_def stop_def split: if_splits)

lemma executeFinish_keeps:
  "keywordMap (executeFinish ch cc s) = keywordMap s"
  "lastDetectedPosition (executeFinish ch cc s) = lastDetectedPosition s"
  "executedChains (executeFinish ch cc s) = executedChains s"
  by (simp_all add: executeFinish_def Let_def stop_def split: prod.splits)

lemma rejectCheck_keeps:
  "keywordMap (rejectCheck k e s) = keywordMap s"
  "lastDetectedPosition (rejectCheck k e s) = lastDetectedPosition s"
  "executedChains (rejectCheck k e s) = executedChains s"
  by (simp_all add: rejectCheck_def split: poll_kind.splits)

text \<open>
  The scan leaves the state as it is unless it detects a keyword; then it records the
  last occurrence of that keyword, which lies strictly beyond what \<open>|| -1\<close> makes of
  the recorded position.
\<close>

lemma detect_False: "detectKeywordInOutput kw s = Inr (False, s') \<Longrightarrow> s' = s"
  by (auto simp: detectKeywordInOutput_def Let_def split: if_splits option.splits)

lemma detect_True:
  assumes "detectKeywordInOutput kw s = Inr (True, s')"
  shows "\<exists>kwd. kw = Some kwd \<and>
     s' = s\<lparr>lastDetectedPosition :=
              mapSet (Some kwd) (lastIndexOf (outputBuffer s) kwd) (lastDetectedPosition s),
            detectedKeywords := setAdd (Some kwd) (detectedKeywords s)\<rparr> \<and>
     orMinusOne (mapGet (Some kwd) (lastDetectedPosition s)) < lastIndexOf (outputBuffer s) kwd"
  using assms
  by (auto simp: detectKeywordInOutput_def Let_def toStr_def split: if_splits option.splits)

lemma scanEntries_cases:
  assumes "scanEntries es s = (s', r)"
  shows "case r of
      DetectedEntry cc \<Rightarrow>
        (\<exists>kwd. (Some kwd, cc) \<in> set es \<and>
           s' = s\<lparr>lastDetectedPosition :=
                    mapSet (Some kwd) (lastIndexOf (outputBuffer s) kwd) (lastDetectedPosition s),
                  detectedKeywords := setAdd (Some kwd) (detectedKeywords s)\<rparr> \<and>
           orMinusOne (mapGet (Some kwd) (lastDetectedPosition s))
             < lastIndexOf (outputBuffer s) kwd)
    | _ \<Rightarrow> s' = s"
  using assms
proof (induction es)
  case Nil
  then show ?case by auto
next
  case (Cons entry es)
  obtain kw cc where entry: "entry = (kw, cc)" by (cases entry)
  show ?case
  proof (cases "detectKeywordInOutput kw s")
    case (Inl e)
    with entry Cons.prems show ?thesis by auto
  next
    case (Inr x)
    obtain d s1 where x: "x = (d, s1)" by (cases x)
    show ?thesis
    proof (cases d)
      case True
      with Inr x entry Cons.prems have r: "r = DetectedEntry cc" "s' = s1" by simp_all
      from detect_True [of kw s s1] Inr x True r entry show ?thesis by auto
    next
      case False
      with Inr x have "s1 = s" using detect_False by simp
      with False Inr x entry Cons.prems have "scanEntries es s = (s', r)" by simp
      from Cons.IH [OF this] show ?thesis
        by (cases r) auto
    qed
  qed
qed

lemma executeBegin_cases:
  assumes "executeBegin t cc s = (s', begun)"
  shows "keywordMap s' = keywordMap s \<and> lastDetectedPosition s' = lastDetectedPosition s \<and>
     (if list_ex (\<lambda>e. exKeyword e = keyword (fst cc) \<and> exChainIndex e = snd cc) (executedChains s)
      then s' = s \<and> \<not> begun
      else executedChains s' = executedChains s @
             [Execution (keyword (fst cc)) (instruction (fst cc)) t (snd cc)] \<and> begun)"
  using assms by (auto simp: executeBegin_def Let_def split: if_splits)

text \<open>Every state of a monitor keeps \<open>consumedInv\<close>.\<close>

lemma readAnswers_consumedInv:
  assumes inv: "consumedInv s" and ra: "readAnswers k t r s = (s', begun)"
  shows "consumedInv s'"
proof (cases r)
  case (ReadOk out)
  let ?s1 = "s\<lparr>outputBuffer := sliceLast 10000 (outputBuffer s) @ unwrapOutput out\<rparr>"
  have inv1: "consumedInv ?s1"
    using inv consumedInv_cong [of ?s1 s] by simp
  obtain s2 res where sc: "scanEntries (keywordMap ?s1) ?s1 = (s2, res)"
    by (cases "scanEntries (keywordMap ?s1) ?s1")
  note scanned = scanEntries_cases [OF sc]
  show ?thesis
  proof (cases res)
    case NothingDetected
    with scanned ra ReadOk sc inv1 show ?thesis by (simp add: readAnswers_def)
  next
    case (ScanThrew e)
    with scanned ra ReadOk sc have "s' = rejectCheck k e ?s1" by (simp add: readAnswers_def)
    with inv1 consumedInv_cong [of s' ?s1] show ?thesis by (simp add: rejectCheck_keeps)
  next
    case (DetectedEntry cc)
    with scanned obtain kwd where
      mem: "(Some kwd, cc) \<in> set (keywordMap s)" and
      s2: "s2 = ?s1\<lparr>lastDetectedPosition :=
                mapSet (Some kwd) (lastIndexOf (outputBuffer ?s1) kwd) (lastDetectedPosition ?s1),
              detectedKeywords := setAdd (Some kwd) (detectedKeywords ?s1)\<rparr>"
      by auto
    obtain s3 b where eb: "executeBegin t cc s2 = (s3, b)" by (cases "executeBegin t cc s2")
    with ra ReadOk sc DetectedEntry have s': "s' = s3" by (simp add: readAnswers_def)
    note ebc = executeBegin_cases [OF eb]
    have km: "keywordMap s3 = keywordMap s" using ebc s2 by simp
    have lp: "lastDetectedPosition s3 =
        mapSet (Some kwd) (lastIndexOf (outputBuffer ?s1) kwd) (lastDetectedPosition s)"
      using ebc s2 by simp
    have ex2: "executedChains s2 = executedChains s" using s2 by simp
    have grow: "set (executedChains s) \<subseteq> set (executedChains s3)"
      using ebc ex2 by (auto split: if_splits)
    have executed: "\<exists>e \<in> set (executedChains s3).
        exKeyword e = keyword (fst cc) \<and> exChainIndex e = snd cc"
      using ebc by (auto simp: list_ex_iff split: if_splits)
    from inv have keyed: "\<forall>(kw, c, i) \<in> set (keywordMap s). keyword c = kw"
      and dist: "distinct (map fst (keywordMap s))"
      and old: "\<forall>(kw, c, i) \<in> set (keywordMap s).
        mapGet kw (lastDetectedPosition s) \<noteq> None \<longrightarrow>
        (\<exists>e \<in> set (executedChains s). exKeyword e = kw \<and> exChainIndex e = i)"
      by (simp_all add: consumedInv_iff)
    have "\<exists>e \<in> set (executedChains s3). exKeyword e = kw \<and> exChainIndex e = i"
      if e: "(kw, c, i) \<in> set (keywordMap s)"
        and g: "mapGet kw (lastDetectedPosition s3) \<noteq> None" for kw c i
    proof (cases "kw = Some kwd")
      case True
      with e mem dist have "cc = (c, i)"
        by (metis eq_key_imp_eq_value)
      moreover from keyed e have "keyword c = kw" by auto
      ultimately show ?thesis using executed by simp
    next
      case False
      with g lp have "mapGet kw (lastDetectedPosition s) \<noteq> None"
        by (simp add: mapGet_mapSet_other)
      with old e have "\<exists>e \<in> set (executedChains s). exKeyword e = kw \<and> exChainIndex e = i"
        by auto
      with grow show ?thesis by auto
    qed
    with keyed dist km s' show ?thesis
      by (auto simp: consumedInv_iff)
  qed
next
  case (ReadFailed msg)
  with ra consumedInv_cong [of s' s] inv show ?thesis
    by (auto simp: readAnswers_def rejectCheck_keeps)
next
  case (ReadThrew e)
  with ra consumedInv_cong [of s' s] inv show ?thesis
    by (auto simp: readAnswers_def rejectCheck_keeps)
qed

lemma asyncStep_consumedInv:
  assumes "consumedInv s"
  shows "consumedInv (fst (asyncStep a (s, ps)))"
proof (cases a)
  case (TimerFires t)
  obtain s1 ph where b: "checkOutputBegin t s = (s1, ph)" by (cases "checkOutputBegin t s")
  from checkOutputBegin_keeps [OF b] assms consumedInv_cong [of s1 s]
  have "consumedInv s1" by simp
  with TimerFires b assms show ?thesis
    by (cases ph) (auto split: if_splits)
next
  case (ReadAnswers i t r)
  show ?thesis
  proof (cases "i < length ps")
    case False
    with ReadAnswers assms show ?thesis by simp
  next
    case True
    show ?thesis
    proof (cases "ps ! i")
      case (PendingDispatch cc)
      with True ReadAnswers assms show ?thesis by simp
    next
      case (PendingRead k)
      obtain s1 begun where ra: "readAnswers k t r s = (s1, begun)"
        by (cases "readAnswers k t r s")
      from readAnswers_consumedInv [OF assms ra] True PendingRead ReadAnswers ra
      show ?thesis by simp
    qed
  qed
next
  case (DispatchEnds i ch)
  have "consumedInv (executeFinish ch cc s)" for cc
    using assms consumedInv_cong [of "executeFinish ch cc s" s] by (simp add: executeFinish_keeps)
  with DispatchEnds assms show ?thesis
    by (auto split: pending.splits)
next
  case StopCalled
  with assms consumedInv_cong [of "stop s" s] show ?thesis by (simp add: stop_keeps)
qed

lemma fold_consumedInv:
  "consumedInv (fst st) \<Longrightarrow> consumedInv (fst (fold asyncStep acts st))"
proof (induction acts arbitrary: st)
  case Nil
  then show ?case by simp
next
  case (Cons a acts)
  obtain s ps where st: "st = (s, ps)" by (cases st)
  with Cons.prems asyncStep_consumedInv [of s a ps]
  have "consumedInv (fst (asyncStep a st))" by simp
  from Cons.IH [OF this] show ?case by simp
qed

lemma asyncStart_consumedInv:
  assumes "consumedInv s"
  shows "consumedInv (fst (asyncStart t0 t (s, ps)))"
proof (cases "isActive s")
  case True
  with assms consumedInv_cong [of "s\<lparr>console := console s @ [WarnAlreadyRunning]\<rparr>" s]
  show ?thesis by (simp add: start_def)
next
  case False
  let ?s1 = "s\<lparr>isActive := True, startTime := Some t0, interval := Some (pollInterval s)\<rparr>"
  obtain s2 ph where b: "checkOutputBegin t ?s1 = (s2, ph)" by (cases "checkOutputBegin t ?s1")
  let ?s3 = "s2\<lparr>events := events s2 @ [Started]\<rparr>"
  from checkOutputBegin_keeps [OF b] assms consumedInv_cong [of ?s3 s]
  have "consumedInv ?s3" by simp
  moreover from False b have "fst (asyncStart t0 t (s, ps)) = ?s3"
    by (cases ph) (simp_all add: start_def Let_def)
  ultimately show ?thesis by simp
qed

text \<open>
  From the constructor on, through every run in every interleaving, a keyword that has
  a recorded position has had its stage executed.
\<close>

lemma asyncRun_consumedInv:
  "consumedInv s \<Longrightarrow> consumedInv (fst (asyncRun t0 t acts (s, ps)))"
  unfolding asyncRun_def by (rule fold_consumedInv) (rule asyncStart_consumedInv)

lemma runMonitor_consumedInv: "consumedInv s \<Longrightarrow> consumedInv (runMonitor t0 env acts s)"
  using asyncRun_consumedInv [of s t0 "now env" "runSteps env acts" "[]"]
  by (simp add: run_steps)

subsection \<open>A poll over a consumed keyword\<close>

lemma executionsOf_cong:
  "executedChains s' = executedChains s \<Longrightarrow> executionsOf K s' = executionsOf K s"
  by (simp add: executionsOf_def)

lemma checkEntries_keeps_executions:
  assumes rec: "mapGet (Some K) (lastDetectedPosition s) = Some (int o1)"
    and last: "lastIndexOf (outputBuffer s) K \<le> int o1"
    and inv: "0 < o1 \<and> keyedByKeyword s \<or> consumedInv s"
  shows "executionsOf K (fst (checkEntries env (keywordMap s) s)) = executionsOf K s"
proof -
  obtain s2 res where sc: "scanEntries (keywordMap s) s = (s2, res)"
    by (cases "scanEntries (keywordMap s) s")
  note scanned = scanEntries_cases [OF sc]
  from inv have keyed: "\<forall>(kw, c, i) \<in> set (keywordMap s). keyword c = kw"
    by (auto simp: consumedInv_iff keyedByKeyword_iff)
  show ?thesis
  proof (cases res)
    case NothingDetected
    with scanned sc show ?thesis by (simp add: checkEntries_scan)
  next
    case (ScanThrew e)
    with scanned sc show ?thesis by (simp add: checkEntries_scan)
  next
    case (DetectedEntry cc)
    with scanned obtain kwd where
      mem: "(Some kwd, cc) \<in> set (keywordMap s)" and
      s2: "s2 = s\<lparr>lastDetectedPosition :=
                mapSet (Some kwd) (lastIndexOf (outputBuffer s) kwd) (lastDetectedPosition s),
              detectedKeywords := setAdd (Some kwd) (detectedKeywords s)\<rparr>" and
      beyond: "orMinusOne (mapGet (Some kwd) (lastDetectedPosition s))
                 < lastIndexOf (outputBuffer s) kwd"
      by auto
    have ex2: "executedChains s2 = executedChains s" using s2 by simp
    from keyed mem have kc: "keyword (fst cc) = Some kwd" by auto
    obtain s3 b where eb: "executeBegin (now env) cc s2 = (s3, b)"
      by (cases "executeBegin (now env) cc s2")
    note ebc = executeBegin_cases [OF eb]
    have res: "fst (checkEntries env (keywordMap s) s) =
        (if b then executeFinish (sendResult env) cc s3 else s3)"
      using sc DetectedEntry eb by (simp add: checkEntries_scan executeChainAction_split)
    have "executionsOf K s3 = executionsOf K s"
    proof (cases "kwd = K")
      case False
      with ebc kc ex2 show ?thesis
        by (auto simp: executionsOf_def split: if_splits)
    next
      case True
      have "o1 = 0"
      proof (rule ccontr)
        assume "o1 \<noteq> 0"
        with rec True have "orMinusOne (mapGet (Some kwd) (lastDetectedPosition s)) = int o1"
          by (simp add: orMinusOne_def)
        with beyond last True show False by simp
      qed
      with inv have "consumedInv s" by simp
      with mem rec True
      have "\<exists>e \<in> set (executedChains s). exKeyword e = Some K \<and> exChainIndex e = snd cc"
        by (cases cc) (auto simp: consumedInv_iff)
      with kc True ex2
      have "list_ex (\<lambda>e. exKeyword e = keyword (fst cc) \<and> exChainIndex e = snd cc)
          (executedChains s2)"
        by (simp add: list_ex_iff)
      with ebc have "s3 = s2" by simp
      with ex2 show ?thesis by (simp add: executionsOf_def)
    qed
    with res show ?thesis
      by (simp add: executionsOf_def executeFinish_keeps)
  qed
qed

text \<open>The two states in which the first keyword is consumed.\<close>

lemma demoConsumedAt0_state:
  "demoConsumedAt0 =
     demoMonitor\<lparr>currentChainIndex := 1,
       currentKeyword := Some (asc ''STAGE2_COMPLETE''),
       isActive := True, startTime := Some 0, interval := Some 5000,
       outputBuffer := asc ''STAGE1_COMPLETE'',
       pollCount := 1,
       executedChains :=
         [Execution (Some (asc ''STAGE1_COMPLETE''))
            (Some (asc ''Now execute stage 2: Create the implementation plan'')) 1000 0],
       detectedKeywords := [Some (asc ''STAGE1_COMPLETE'')],
       lastDetectedPosition := [(Some (asc ''STAGE1_COMPLETE''), 0)],
       events :=
         [Started,
          ChainExecuted (Some (asc ''STAGE1_COMPLETE''))
            (Some (asc ''Now execute stage 2: Create the implementation plan'')) 0],
       channelLog := [Send 1]\<rparr>"
  by code_simp

lemma demoConsumedAt1_state:
  "demoConsumedAt1 =
     demoMonitor\<lparr>currentChainIndex := 1,
       currentKeyword := Some (asc ''STAGE2_COMPLETE''),
       isActive := True, startTime := Some 0, interval := Some 5000,
       outputBuffer := 0x0A # asc ''STAGE1_COMPLETE'',
       pollCount := 1,
       executedChains :=
         [Execution (Some (asc ''STAGE1_COMPLETE''))
            (Some (asc ''Now execute stage 2: Create the implementation plan'')) 1000 0],
       detectedKeywords := [Some (asc ''STAGE1_COMPLETE'')],
       lastDetectedPosition := [(Some (asc ''STAGE1_COMPLETE''), 1)],
       events :=
         [Started,
          ChainExecuted (Some (asc ''STAGE1_COMPLETE''))
            (Some (asc ''Now execute stage 2: Create the implementation plan'')) 0],
       channelLog := [Send 1]\<rparr>"
  by code_simp

lemma unwrapOutput_empty: "unwrapOutput [] = []"
  by (simp add: unwrapOutput_def)

lemma sliceLast_short: "length s \<le> n \<Longrightarrow> sliceLast n s = s"
  by (simp add: sliceLast_def)

lemma lastIndexOf_demo:
  "lastIndexOf (asc ''STAGE1_COMPLETE'') (asc ''STAGE1_COMPLETE'') = 0"
  "lastIndexOf (0x0A # asc ''STAGE1_COMPLETE'') (asc ''STAGE1_COMPLETE'') = 1"
  by code_simp+

text \<open>
  C4: let \<open>o1\<close> be the recorded (last consumed) position of keyword \<open>K\<close>, and let
  the last occurrence of \<open>K\<close> in the buffer that a poll scans lie at or before \<open>o1\<close>.
  Then the poll does not execute the stage of \<open>K\<close>: after \<open>checkOutput\<close>, and after
  the whole timer tick, the executions of that stage are the ones there were before. So
  a poll executes the stage only if the last occurrence lies strictly beyond \<open>o1\<close>.
  For \<open>o1 > 0\<close> the comparison of the two offsets in \<open>detectKeywordInOutput\<close> does
  this, in every state whose \<open>keywordMap\<close> is keyed by the stages' own keywords. For
  \<open>o1 = 0\<close> the detector reads the recorded position as \<open>-1\<close> and reports the keyword
  again; the stage is then not executed because \<open>executeChainAction\<close> finds it among
  the executed stages, which holds in every state a monitor can reach (\<open>consumedInv\<close>,
  see \<open>consumedInv_constructor\<close> and \<open>asyncRun_consumedInv\<close>).
\<close>

theorem poll_keeps_consumed_stage:
  assumes "mapGet (Some K) (lastDetectedPosition s) = Some (int o1)"
    and "lastIndexOf (scannedBuffer env s) K \<le> int o1"
    and "0 < o1 \<and> keyedByKeyword s \<or> consumedInv s"
  shows "executionsOf K (fst (checkOutput env s)) = executionsOf K s \<and>
         executionsOf K (intervalTick env s) = executionsOf K s"
proof -
  obtain s1 ph where b: "checkOutputBegin (now env) s = (s1, ph)"
    by (cases "checkOutputBegin (now env) s")
  note keeps = checkOutputBegin_keeps [OF b]
  have poll: "executionsOf K (fst (checkOutput env s)) = executionsOf K s"
  proof (cases ph)
    case CheckDone
    with b keeps show ?thesis by (simp add: checkOutput_def executionsOf_def)
  next
    case AwaitingRead
    show ?thesis
    proof (cases "readResult env")
      case (ReadOk out)
      let ?s2 = "s1\<lparr>outputBuffer := sliceLast 10000 (outputBuffer s1) @ unwrapOutput out\<rparr>"
      have rec2: "mapGet (Some K) (lastDetectedPosition ?s2) = Some (int o1)"
        using assms(1) keeps by simp
      have last2: "lastIndexOf (outputBuffer ?s2) K \<le> int o1"
        using assms(2) keeps ReadOk by (simp add: scannedBuffer_def)
      have "consumedInv ?s2 = consumedInv s"
        using keeps by (intro consumedInv_cong) simp_all
      moreover have "keyedByKeyword ?s2 = keyedByKeyword s"
        using keeps by (simp add: keyedByKeyword_def)
      ultimately have inv2: "0 < o1 \<and> keyedByKeyword ?s2 \<or> consumedInv ?s2"
        using assms(3) by simp
      from checkEntries_keeps_executions [OF rec2 last2 inv2, of env]
      have "executionsOf K (fst (checkEntries env (keywordMap ?s2) ?s2)) = executionsOf K s"
        using keeps by (simp add: executionsOf_def)
      with b AwaitingRead ReadOk show ?thesis
        by (simp add: checkOutput_def checkOutputResume_def checkForKeywords_def)
    next
      case (ReadFailed msg)
      with b AwaitingRead keeps show ?thesis
        by (simp add: checkOutput_def checkOutputResume_def executionsOf_def)
    next
      case (ReadThrew e)
      with b AwaitingRead keeps show ?thesis
        by (simp add: checkOutput_def checkOutputResume_def executionsOf_def)
    qed
  qed
  have "executionsOf K (intervalTick env s) = executionsOf K (fst (checkOutput env s)) \<or>
      intervalTick env s = s"
    by (auto simp: intervalTick_def executionsOf_def split: prod.splits option.splits)
  with poll show ?thesis by auto
qed

text \<open>
  The example monitor after its first poll has consumed \<open>STAGE1_COMPLETE\<close>, at offset 0
  and at offset 1: the tick at 6000 ms reads no new output, scans the same buffer and
  leaves the one execution of the first stage as it is.
\<close>

theorem poll_keeps_consumed_stage_witness:
  "mapGet (Some (asc ''STAGE1_COMPLETE'')) (lastDetectedPosition demoConsumedAt0) = Some (int 0) \<and>
   lastIndexOf (scannedBuffer (channelAt 6000 (ReadOk [])) demoConsumedAt0)
     (asc ''STAGE1_COMPLETE'') \<le> int 0 \<and>
   consumedInv demoConsumedAt0 \<and>
   executionsOf (asc ''STAGE1_COMPLETE'') (intervalTick (channelAt 6000 (ReadOk [])) demoConsumedAt0) =
     [Execution (Some (asc ''STAGE1_COMPLETE''))
        (Some (asc ''Now execute stage 2: Create the implementation plan'')) 1000 0] \<and>
   mapGet (Some (asc ''STAGE1_COMPLETE'')) (lastDetectedPosition demoConsumedAt1) = Some (int 1) \<and>
   lastIndexOf (scannedBuffer (channelAt 6000 (ReadOk [])) demoConsumedAt1)
     (asc ''STAGE1_COMPLETE'') \<le> int 1 \<and>
   (0::nat) < 1 \<and> keyedByKeyword demoConsumedAt1 \<and>
   executionsOf (asc ''STAGE1_COMPLETE'') (intervalTick (channelAt 6000 (ReadOk [])) demoConsumedAt1) =
     [Execution (Some (asc ''STAGE1_COMPLETE''))
        (Some (asc ''Now execute stage 2: Create the implementation plan'')) 1000 0]"
proof -
  let ?K = "asc ''STAGE1_COMPLETE''"
  let ?env = "channelAt 6000 (ReadOk [])"
  let ?done = "[Execution (Some ?K)
        (Some (asc ''Now execute stage 2: Create the implementation plan'')) 1000 0]"
  have inv: "consumedInv demoMonitor"
    using demoMonitor_fields(1) by (rule consumedInv_constructor)
  have inv0: "consumedInv demoConsumedAt0"
    using runMonitor_consumedInv [OF inv, of 0 "channelAt 1000 (ReadOk (asc ''STAGE1_COMPLETE''))" "[]"]
    by (simp add: runMonitor_def demoConsumedAt0_def)
  have inv1: "consumedInv demoConsumedAt1"
    using runMonitor_consumedInv [OF inv, of 0
        "channelAt 1000 (ReadOk (0x0A # asc ''STAGE1_COMPLETE''))" "[]"]
    by (simp add: runMonitor_def demoConsumedAt1_def)
  then have keyed1: "keyedByKeyword demoConsumedAt1"
    by (simp add: consumedInv_def)
  have rec0: "mapGet (Some ?K) (lastDetectedPosition demoConsumedAt0) = Some (int 0)"
    by (simp add: demoConsumedAt0_state mapGet_def)
  have rec1: "mapGet (Some ?K) (lastDetectedPosition demoConsumedAt1) = Some (int 1)"
    by (simp add: demoConsumedAt1_state mapGet_def)
  have buf0: "scannedBuffer ?env demoConsumedAt0 = ?K"
    by (simp add: demoConsumedAt0_state scannedBuffer_def channelAt_def unwrapOutput_empty
        sliceLast_short)
  have buf1: "scannedBuffer ?env demoConsumedAt1 = 0x0A # ?K"
    by (simp add: demoConsumedAt1_state scannedBuffer_def channelAt_def unwrapOutput_empty
        sliceLast_short)
  have last0: "lastIndexOf (scannedBuffer ?env demoConsumedAt0) ?K \<le> int 0"
    by (simp add: buf0 lastIndexOf_demo)
  have last1: "lastIndexOf (scannedBuffer ?env demoConsumedAt1) ?K \<le> int 1"
    by (simp add: buf1 lastIndexOf_demo)
  have ex0: "executionsOf ?K demoConsumedAt0 = ?done"
    by (simp add: demoConsumedAt0_state executionsOf_def)
  have ex1: "executionsOf ?K demoConsumedAt1 = ?done"
    by (simp add: demoConsumedAt1_state executionsOf_def)
  have hyp0: "0 < (0::nat) \<and> keyedByKeyword demoConsumedAt0 \<or> consumedInv demoConsumedAt0"
    using inv0 by simp
  have hyp1: "0 < (1::nat) \<and> keyedByKeyword demoConsumedAt1 \<or> consumedInv demoConsumedAt1"
    using keyed1 by simp
  from poll_keeps_consumed_stage [OF rec0 last0 hyp0] ex0
  have t0: "executionsOf ?K (intervalTick ?env demoConsumedAt0) = ?done" by simp
  from poll_keeps_consumed_stage [OF rec1 last1 hyp1] ex1
  have t1: "executionsOf ?K (intervalTick ?env demoConsumedAt1) = ?done" by simp
  from rec0 last0 inv0 t0 rec1 last1 keyed1 t1 show ?thesis by simp
qed

text \<open>
  With the first keyword consumed at offset 0, a poll that reads the second keyword
  detects the first keyword once more, skips its stage, and returns: the second stage is
  not executed.
\<close>

lemma consumed_at_zero_detected_again:
  "executedChains (intervalTick (channelAt 6000 (ReadOk (0x0A # asc ''STAGE2_COMPLETE'')))
       demoConsumedAt0) = executedChains demoConsumedAt0 \<and>
   detectKeywordInOutput (Some (asc ''STAGE1_COMPLETE''))
     (demoConsumedAt0\<lparr>outputBuffer := asc ''STAGE1_COMPLETE'' @ 0x0A # asc ''STAGE2_COMPLETE''\<rparr>) =
     Inr (True, demoConsumedAt0\<lparr>outputBuffer :=
        asc ''STAGE1_COMPLETE'' @ 0x0A # asc ''STAGE2_COMPLETE''\<rparr>)"
  unfolding demoConsumedAt0_state by code_simp

section \<open>Lifecycle events of a run\<close>

lemma appendedI:
  "events s' = events s @ new \<Longrightarrow> appended s s' \<and> terminalSince s s' = filter isTerminalEvent new"
  by (simp add: appended_def terminalSince_def newEvents_def)

lemma appended_events: "appended s s' \<Longrightarrow> events s' = events s @ newEvents s s'"
proof -
  assume "appended s s'"
  then have "take (length (events s)) (events s') @ drop (length (events s)) (events s')
      = events s @ newEvents s s'"
    by (simp only: appended_def newEvents_def)
  then show ?thesis by simp
qed

lemma appended_refl: "appended s s \<and> terminalSince s s = []"
  using appendedI [of s s "[]"] by simp

lemma appended_same:
  "events s' = events s \<Longrightarrow> appended s s' \<and> terminalSince s s' = []"
  using appendedI [of s' s "[]"] by simp

lemma appended_trans:
  assumes "appended s s1" and "appended s1 s2"
  shows "appended s s2 \<and> terminalSince s s2 = terminalSince s s1 @ terminalSince s1 s2"
proof -
  have "events s2 = events s @ (newEvents s s1 @ newEvents s1 s2)"
    using appended_events [OF assms(1)] appended_events [OF assms(2)] by simp
  from appendedI [OF this] show ?thesis
    by (simp add: terminalSince_def)
qed

text \<open>The loop returns success exactly when the dispatch succeeds in the specification's sense.\<close>

lemma sendLoop_success:
  "fst (sendLoop ch n d a) \<longleftrightarrow> (\<exists>k. a \<le> k \<and> of_nat k \<le> n \<and> ch k = SendOk)"
proof (induction ch n d a rule: sendLoop.induct)
  case (1 ch n d a)
  show ?case
  proof (cases "of_nat a \<le> n")
    case False
    have "\<not> (\<exists>k. a \<le> k \<and> of_nat k \<le> n \<and> ch k = SendOk)"
    proof
      assume "\<exists>k. a \<le> k \<and> of_nat k \<le> n \<and> ch k = SendOk"
      then obtain k where "a \<le> k" "of_nat k \<le> n" by blast
      then have "(of_nat a :: rat) \<le> of_nat k" by simp
      with \<open>of_nat k \<le> n\<close> False show False by simp
    qed
    with False show ?thesis
      by (simp add: sendLoop.simps [of ch n d a])
  next
    case True
    show ?thesis
    proof (cases "ch a = SendOk")
      case ok: True
      with True show ?thesis
        by (auto simp: sendLoop.simps [of ch n d a])
    next
      case nok: False
      then have c: "ch a = SendFail \<or> ch a = SendThrow"
        by (cases "ch a") simp_all
      have ih: "fst (sendLoop ch n d (Suc a)) \<longleftrightarrow>
          (\<exists>k. Suc a \<le> k \<and> of_nat k \<le> n \<and> ch k = SendOk)"
        using c "1.IH"(1) [OF True _ refl] "1.IH"(2) [OF True _ refl] by blast
      have "fst (sendLoop ch n d a) = fst (sendLoop ch n d (Suc a))"
        using True c by (auto simp: sendLoop.simps [of ch n d a] Let_def split: prod.splits)
      moreover have "(\<exists>k. Suc a \<le> k \<and> of_nat k \<le> n \<and> ch k = SendOk) \<longleftrightarrow>
          (\<exists>k. a \<le> k \<and> of_nat k \<le> n \<and> ch k = SendOk)"
        using nok by (metis Suc_leD Suc_leI le_neq_implies_less)
      ultimately show ?thesis using ih by simp
    qed
  qed
qed

lemma dispatchSucceeds_iff:
  "dispatchSucceeds ch n \<longleftrightarrow> (\<exists>k. 1 \<le> k \<and> of_nat k \<le> n \<and> ch k = SendOk)"
proof -
  have "k \<le> nat \<lfloor>n\<rfloor> \<longleftrightarrow> of_nat k \<le> n" if "1 \<le> k" for k :: nat
  proof -
    have "k \<le> nat \<lfloor>n\<rfloor> \<longleftrightarrow> int k \<le> \<lfloor>n\<rfloor>"
      using that by auto
    also have "\<dots> \<longleftrightarrow> of_nat k \<le> n"
      by (simp add: le_floor_iff)
    finally show ?thesis .
  qed
  note bound = this
  have "dispatchSucceeds ch n \<longleftrightarrow> (\<exists>k. 1 \<le> k \<and> k \<le> nat \<lfloor>n\<rfloor> \<and> ch k = SendOk)"
    unfolding dispatchSucceeds_def list_ex_iff
    by (metis One_nat_def Suc_leI atLeastLessThan_iff less_Suc_eq_le set_upt Suc_le_eq)
  also have "\<dots> \<longleftrightarrow> (\<exists>k. 1 \<le> k \<and> of_nat k \<le> n \<and> ch k = SendOk)"
    using bound by blast
  finally show ?thesis .
qed

lemma send_success: "fst (sendInstructionWithRetry ch n d) = dispatchSucceeds ch n"
  by (simp add: sendInstructionWithRetry_def sendLoop_success dispatchSucceeds_iff)

subsection \<open>One step\<close>

lemma detect_keeps:
  "detectKeywordInOutput kw s = Inr (d, s') \<Longrightarrow> events s' = events s \<and> isActive s' = isActive s"
  by (auto simp: detectKeywordInOutput_def Let_def split: if_splits option.splits)

lemma scanEntries_keeps:
  "scanEntries es s = (s', r) \<Longrightarrow> events s' = events s \<and> isActive s' = isActive s"
proof (induction es arbitrary: s)
  case Nil
  then show ?case by simp
next
  case (Cons entry es)
  obtain kw cc where entry: "entry = (kw, cc)" by (cases entry)
  show ?case
  proof (cases "detectKeywordInOutput kw s")
    case (Inl e)
    with entry Cons.prems show ?thesis by simp
  next
    case (Inr x)
    obtain d s1 where x: "x = (d, s1)" by (cases x)
    with Inr have k: "events s1 = events s \<and> isActive s1 = isActive s"
      using detect_keeps by blast
    show ?thesis
    proof (cases d)
      case True
      with entry Inr x Cons.prems k show ?thesis by simp
    next
      case False
      with entry Inr x Cons.prems have "scanEntries es s1 = (s', r)" by simp
      from Cons.IH [OF this] k show ?thesis by simp
    qed
  qed
qed

text \<open>The answer of a read emits no terminal event and leaves \<open>isActive\<close> as it is.\<close>

lemma readAnswers_report:
  assumes "readAnswers k t r s = (s', begun)"
  shows "appended s s' \<and> terminalSince s s' = [] \<and> isActive s' = isActive s"
proof (cases r)
  case (ReadOk out)
  let ?s1 = "s\<lparr>outputBuffer := sliceLast 10000 (outputBuffer s) @ unwrapOutput out\<rparr>"
  obtain s2 res where sc: "scanEntries (keywordMap ?s1) ?s1 = (s2, res)"
    by (cases "scanEntries (keywordMap ?s1) ?s1")
  from scanEntries_keeps [OF sc] have k: "events s2 = events s" "isActive s2 = isActive s"
    by simp_all
  show ?thesis
  proof (cases res)
    case NothingDetected
    with assms ReadOk sc have "s' = s2" by (simp add: readAnswers_def)
    with k appended_same [of s2 s] show ?thesis by simp
  next
    case (ScanThrew e)
    with assms ReadOk sc have s': "s' = rejectCheck k e s2" by (simp add: readAnswers_def)
    show ?thesis
    proof (cases k)
      case Immediate
      with s' k appended_same [of s' s] show ?thesis by (simp add: rejectCheck_def)
    next
      case Scheduled
      with s' k have "events s' = events s @ [ErrorEvent e]" "isActive s' = isActive s"
        by (simp_all add: rejectCheck_def)
      with appendedI [of s' s "[ErrorEvent e]"] show ?thesis by simp
    qed
  next
    case (DetectedEntry cc)
    with assms ReadOk sc have s': "s' = fst (executeBegin t cc s2)"
      by (simp add: readAnswers_def split: prod.splits)
    show ?thesis
    proof (cases "snd (executeBegin t cc s2)")
      case True
      then have "events s' = events s @
          [ChainExecuted (keyword (fst cc)) (instruction (fst cc)) (snd cc)]"
        "isActive s' = isActive s"
        using s' k by (auto simp: executeBegin_def Let_def split: if_splits)
      with appendedI [of s' s "[ChainExecuted (keyword (fst cc)) (instruction (fst cc)) (snd cc)]"]
      show ?thesis by simp
    next
      case False
      then have "s' = s2"
        using s' by (auto simp: executeBegin_def Let_def split: if_splits)
      with k appended_same [of s2 s] show ?thesis by simp
    qed
  qed
next
  case (ReadFailed msg)
  let ?e = "Error (if truthy msg then toStr msg else asc ''Failed to read instance output'')"
  from assms ReadFailed have s': "s' = rejectCheck k ?e s" by (simp add: readAnswers_def)
  show ?thesis
  proof (cases k)
    case Immediate
    with s' appended_same [of s' s] show ?thesis by (simp add: rejectCheck_def)
  next
    case Scheduled
    with s' have "events s' = events s @ [ErrorEvent ?e]" "isActive s' = isActive s"
      by (simp_all add: rejectCheck_def)
    with appendedI [of s' s "[ErrorEvent ?e]"] show ?thesis by simp
  qed
next
  case (ReadThrew e)
  with assms have s': "s' = rejectCheck k e s" by (simp add: readAnswers_def)
  show ?thesis
  proof (cases k)
    case Immediate
    with s' appended_same [of s' s] show ?thesis by (simp add: rejectCheck_def)
  next
    case Scheduled
    with s' have "events s' = events s @ [ErrorEvent e]" "isActive s' = isActive s"
      by (simp_all add: rejectCheck_def)
    with appendedI [of s' s "[ErrorEvent e]"] show ?thesis by simp
  qed
qed

text \<open>
  The end of a dispatch on an active monitor: a failed dispatch emits \<open>chain_failed\<close>
  and \<open>stopped\<close>, a successful dispatch of a stage without \<open>nextKeyword\<close> emits
  \<open>chain_complete\<close> and \<open>stopped\<close>, any other emits nothing and the run goes on.
\<close>

lemma executeFinish_active:
  assumes "isActive s"
  shows "appended s (executeFinish ch cc s) \<and>
     terminalSince s (executeFinish ch cc s) =
       (if \<not> dispatchSucceeds ch (retryAttempts s) then
          [ChainFailed (keyword (fst cc)) (instruction (fst cc)) (snd cc), Stopped]
        else if \<not> truthy (nextKeyword (fst cc)) then
          [ChainComplete (length (executedChains s)) (executedChains s), Stopped]
        else []) \<and>
     (isActive (executeFinish ch cc s) \<longleftrightarrow>
        dispatchSucceeds ch (retryAttempts s) \<and> truthy (nextKeyword (fst cc)))"
proof -
  obtain ok acts where r: "sendInstructionWithRetry ch (retryAttempts s) (retryDelay s) = (ok, acts)"
    by (cases "sendInstructionWithRetry ch (retryAttempts s) (retryDelay s)")
  with send_success [of ch "retryAttempts s" "retryDelay s"]
  have ok: "ok = dispatchSucceeds ch (retryAttempts s)" by simp
  consider "\<not> ok" | "ok" "truthy (nextKeyword (fst cc))" | "ok" "\<not> truthy (nextKeyword (fst cc))"
    by blast
  then show ?thesis
  proof cases
    case 1
    with r assms have "events (executeFinish ch cc s) = events s @
        [ChainFailed (keyword (fst cc)) (instruction (fst cc)) (snd cc), Stopped]"
      "\<not> isActive (executeFinish ch cc s)"
      by (simp_all add: executeFinish_def Let_def stop_def)
    with appendedI [OF this(1)] 1 ok show ?thesis by simp
  next
    case 2
    with r assms have "events (executeFinish ch cc s) = events s"
      "isActive (executeFinish ch cc s)"
      by (simp_all add: executeFinish_def Let_def)
    with appended_same [OF this(1)] 2 ok show ?thesis by simp
  next
    case 3
    with r assms have "events (executeFinish ch cc s) = events s @
        [ChainComplete (length (executedChains s)) (executedChains s), Stopped]"
      "\<not> isActive (executeFinish ch cc s)"
      by (simp_all add: executeFinish_def Let_def stop_def)
    with appendedI [OF this(1)] 3 ok show ?thesis by simp
  qed
qed

lemma readAnswers_begun: "readAnswers k t r s = (s', begun) \<Longrightarrow> length begun \<le> 1"
  by (auto simp: readAnswers_def Let_def
      split: read_result.splits prod.splits scan_result.splits if_splits)

lemma length_dropAt: "i < length ps \<Longrightarrow> Suc (length (dropAt i ps)) = length ps"
  by (auto simp: dropAt_def)

text \<open>After the end of the run a dispatch that ends emits at most its own report.\<close>

lemma executeFinish_inactive:
  assumes "\<not> isActive s"
  shows "appended s (executeFinish ch cc s) \<and>
     list_all isLateReport (terminalSince s (executeFinish ch cc s)) \<and>
     length (terminalSince s (executeFinish ch cc s)) \<le> 1 \<and>
     \<not> isActive (executeFinish ch cc s)"
proof -
  obtain ok acts where r: "sendInstructionWithRetry ch (retryAttempts s) (retryDelay s) = (ok, acts)"
    by (cases "sendInstructionWithRetry ch (retryAttempts s) (retryDelay s)")
  consider "\<not> ok" | "ok" "truthy (nextKeyword (fst cc))" | "ok" "\<not> truthy (nextKeyword (fst cc))"
    by blast
  then show ?thesis
  proof cases
    case 1
    with r assms have "events (executeFinish ch cc s) = events s @
        [ChainFailed (keyword (fst cc)) (instruction (fst cc)) (snd cc)]"
      "\<not> isActive (executeFinish ch cc s)"
      by (simp_all add: executeFinish_def Let_def stop_def)
    with appendedI [OF this(1)] show ?thesis by simp
  next
    case 2
    with r assms have "events (executeFinish ch cc s) = events s"
      "\<not> isActive (executeFinish ch cc s)"
      by (simp_all add: executeFinish_def Let_def)
    with appended_same [OF this(1)] show ?thesis by simp
  next
    case 3
    with r assms have "events (executeFinish ch cc s) = events s @
        [ChainComplete (length (executedChains s)) (executedChains s)]"
      "\<not> isActive (executeFinish ch cc s)"
      by (simp_all add: executeFinish_def Let_def stop_def)
    with appendedI [OF this(1)] show ?thesis by simp
  qed
qed

lemma asyncStep_active:
  assumes "isActive s" and "asyncStep a (s, ps) = (s', ps')"
  shows "appended s s' \<and>
     terminalSince s s' = (case endedBy a (s, ps) of None \<Rightarrow> [] | Some c \<Rightarrow> reportOf c) \<and>
     (isActive s' \<longleftrightarrow> endedBy a (s, ps) = None)"
proof (cases a)
  case (TimerFires t)
  show ?thesis
  proof (cases "interval s = None")
    case True
    with TimerFires assms appended_refl [of s] show ?thesis by auto
  next
    case False
    show ?thesis
    proof (cases "t - (case startTime s of None \<Rightarrow> 0 | Some t0 \<Rightarrow> t0) > timeout s")
      case True
      with TimerFires assms False have "events s' = events s @
          [Stopped, Timeout (currentChainIndex s) (length (executedChains s))]" "\<not> isActive s'"
        by (auto simp: checkOutputBegin_def Let_def stop_def)
      with appendedI [OF this(1)] TimerFires False True show ?thesis by simp
    next
      case nt: False
      with TimerFires assms False have "events s' = events s" "isActive s'"
        by (auto simp: checkOutputBegin_def Let_def)
      with appended_same [OF this(1)] TimerFires False nt show ?thesis by simp
    qed
  qed
next
  case (ReadAnswers i t r)
  show ?thesis
  proof (cases "i < length ps")
    case False
    with ReadAnswers assms appended_refl [of s] show ?thesis by auto
  next
    case True
    show ?thesis
    proof (cases "ps ! i")
      case (PendingDispatch cc)
      with True ReadAnswers assms appended_refl [of s] show ?thesis by auto
    next
      case (PendingRead k)
      obtain s1 begun where ra: "readAnswers k t r s = (s1, begun)"
        by (cases "readAnswers k t r s")
      with True PendingRead ReadAnswers assms have "s' = s1" by simp
      with readAnswers_report [OF ra] assms ReadAnswers show ?thesis by simp
    qed
  qed
next
  case (DispatchEnds i ch)
  show ?thesis
  proof (cases "i < length ps")
    case False
    with DispatchEnds assms appended_refl [of s] show ?thesis by auto
  next
    case True
    show ?thesis
    proof (cases "ps ! i")
      case (PendingRead k)
      with True DispatchEnds assms appended_refl [of s] show ?thesis by auto
    next
      case (PendingDispatch cc)
      with True DispatchEnds assms have s': "s' = executeFinish ch cc s" by simp
      from executeFinish_active [OF assms(1), of ch cc] s' True PendingDispatch DispatchEnds
      show ?thesis by simp
    qed
  qed
next
  case StopCalled
  with assms have "events s' = events s @ [Stopped]" "\<not> isActive s'"
    by (auto simp: stop_def)
  with appendedI [OF this(1)] StopCalled show ?thesis by simp
qed

lemma asyncStep_inactive:
  assumes "\<not> isActive s" and "asyncStep a (s, ps) = (s', ps')"
  shows "appended s s' \<and> list_all isLateReport (terminalSince s s') \<and>
     length (terminalSince s s') + length ps' \<le> length ps \<and> \<not> isActive s'"
proof (cases a)
  case (TimerFires t)
  with assms have "s' = s" "ps' = ps"
    by (auto simp: checkOutputBegin_def split: if_splits)
  with assms appended_refl [of s] show ?thesis by simp
next
  case (ReadAnswers i t r)
  show ?thesis
  proof (cases "i < length ps")
    case False
    with ReadAnswers assms appended_refl [of s] show ?thesis by auto
  next
    case True
    show ?thesis
    proof (cases "ps ! i")
      case (PendingDispatch cc)
      with True ReadAnswers assms appended_refl [of s] show ?thesis by auto
    next
      case (PendingRead k)
      obtain s1 begun where ra: "readAnswers k t r s = (s1, begun)"
        by (cases "readAnswers k t r s")
      with True PendingRead ReadAnswers assms have s': "s' = s1" "ps' = dropAt i ps @ begun"
        by simp_all
      from readAnswers_begun [OF ra] length_dropAt [OF True] s'
      have "length ps' \<le> length ps" by simp
      with readAnswers_report [OF ra] assms s' show ?thesis by simp
    qed
  qed
next
  case (DispatchEnds i ch)
  show ?thesis
  proof (cases "i < length ps")
    case False
    with DispatchEnds assms appended_refl [of s] show ?thesis by auto
  next
    case True
    show ?thesis
    proof (cases "ps ! i")
      case (PendingRead k)
      with True DispatchEnds assms appended_refl [of s] show ?thesis by auto
    next
      case (PendingDispatch cc)
      with True DispatchEnds assms have s': "s' = executeFinish ch cc s" "ps' = dropAt i ps"
        by simp_all
      from executeFinish_inactive [OF assms(1), of ch cc] s' length_dropAt [OF True]
      show ?thesis by simp
    qed
  qed
next
  case StopCalled
  with assms have "s' = s" "ps' = ps" by (simp_all add: stop_def)
  with assms appended_refl [of s] show ?thesis by simp
qed

lemma asyncStep_idle: "\<not> isActive s \<Longrightarrow> asyncStep a (s, []) = (s, [])"
  by (cases a) (auto simp: checkOutputBegin_def stop_def)

subsection \<open>Whole runs\<close>

lemma fold_idle: "\<not> isActive s \<Longrightarrow> fold asyncStep acts (s, []) = (s, [])"
  by (induction acts) (simp_all add: asyncStep_idle)

lemma fold_inactive:
  assumes "\<not> isActive s" and "fold asyncStep acts (s, ps) = (s', ps')"
  shows "appended s s' \<and> list_all isLateReport (terminalSince s s') \<and>
     length (terminalSince s s') \<le> length ps \<and> \<not> isActive s'"
proof -
  have "appended s s' \<and> list_all isLateReport (terminalSince s s') \<and>
     length (terminalSince s s') + length ps' \<le> length ps \<and> \<not> isActive s'"
    using assms
  proof (induction acts arbitrary: s ps)
    case Nil
    with appended_refl [of s] show ?case by simp
  next
    case (Cons a acts)
    obtain s1 ps1 where st: "asyncStep a (s, ps) = (s1, ps1)"
      by (cases "asyncStep a (s, ps)")
    from asyncStep_inactive [OF Cons.prems(1) st]
    have 1: "appended s s1" "list_all isLateReport (terminalSince s s1)"
      "length (terminalSince s s1) + length ps1 \<le> length ps" "\<not> isActive s1"
      by simp_all
    from Cons.prems(2) st have "fold asyncStep acts (s1, ps1) = (s', ps')" by simp
    from Cons.IH [OF 1(4) this]
    have 2: "appended s1 s'" "list_all isLateReport (terminalSince s1 s')"
      "length (terminalSince s1 s') + length ps' \<le> length ps1" "\<not> isActive s'"
      by simp_all
    from appended_trans [OF 1(1) 2(1)] 1(2,3) 2(2,3,4) show ?case by simp
  qed
  then show ?thesis by simp
qed

text \<open>
  A run from an active monitor: no terminal event while it goes on; when a step ends
  it, the report of that step's outcome, followed at most by the reports of dispatches
  that end later, and by nothing if nothing was in flight.
\<close>

lemma fold_active:
  assumes "isActive s" and "fold asyncStep acts (s, ps) = (s', ps')"
  shows "appended s s' \<and>
     (case endOfRun acts (s, ps) of
        None \<Rightarrow> isActive s' \<and> terminalSince s s' = []
      | Some (c, inFlight) \<Rightarrow>
          \<not> isActive s' \<and> prefix (reportOf c) (terminalSince s s') \<and>
          list_all isLateReport (drop (length (reportOf c)) (terminalSince s s')) \<and>
          length (terminalSince s s') \<le> length (reportOf c) + length inFlight)"
  using assms
proof (induction acts arbitrary: s ps)
  case Nil
  with appended_refl [of s] show ?case by simp
next
  case (Cons a acts)
  obtain s1 ps1 where st: "asyncStep a (s, ps) = (s1, ps1)"
    by (cases "asyncStep a (s, ps)")
  from asyncStep_active [OF Cons.prems(1) st]
  have 1: "appended s s1"
    "terminalSince s s1 = (case endedBy a (s, ps) of None \<Rightarrow> [] | Some c \<Rightarrow> reportOf c)"
    "isActive s1 \<longleftrightarrow> endedBy a (s, ps) = None"
    by simp_all
  from Cons.prems(2) st have rest: "fold asyncStep acts (s1, ps1) = (s', ps')" by simp
  show ?case
  proof (cases "endedBy a (s, ps)")
    case None
    with 1 have a1: "isActive s1" and t1: "terminalSince s s1 = []" by simp_all
    from Cons.IH [OF a1 rest] have 2: "appended s1 s'"
      "case endOfRun acts (s1, ps1) of
         None \<Rightarrow> isActive s' \<and> terminalSince s1 s' = []
       | Some (c, inFlight) \<Rightarrow>
           \<not> isActive s' \<and> prefix (reportOf c) (terminalSince s1 s') \<and>
           list_all isLateReport (drop (length (reportOf c)) (terminalSince s1 s')) \<and>
           length (terminalSince s1 s') \<le> length (reportOf c) + length inFlight"
      by simp_all
    from appended_trans [OF 1(1) 2(1)] t1
    have "appended s s'" "terminalSince s s' = terminalSince s1 s'" by simp_all
    with 2(2) None st show ?thesis by (simp split: option.splits prod.splits)
  next
    case (Some c)
    with 1 have a1: "\<not> isActive s1" and t1: "terminalSince s s1 = reportOf c" by simp_all
    from fold_inactive [OF a1 rest]
    have 2: "appended s1 s'" "list_all isLateReport (terminalSince s1 s')"
      "length (terminalSince s1 s') \<le> length ps1" "\<not> isActive s'"
      by simp_all
    from appended_trans [OF 1(1) 2(1)] t1
    have 3: "appended s s'" "terminalSince s s' = reportOf c @ terminalSince s1 s'" by simp_all
    with 2 Some st show ?thesis by simp
  qed
qed

lemma run_report_aux:
  assumes "\<not> isActive s" and "asyncRun t0 t acts (s, ps) = (s', ps')"
  shows "appended s s' \<and>
     (case runEnd t0 t acts (s, ps) of
        None \<Rightarrow> isActive s' \<and> terminalSince s s' = []
      | Some (c, inFlight) \<Rightarrow>
          \<not> isActive s' \<and> prefix (reportOf c) (terminalSince s s') \<and>
          list_all isLateReport (drop (length (reportOf c)) (terminalSince s s')) \<and>
          length (terminalSince s s') \<le> length (reportOf c) + length inFlight)"
proof (cases "t - t0 > timeout s")
  case True
  let ?s1 = "s\<lparr>isActive := False, startTime := Some t0, interval := None,
      pollCount := Suc (pollCount s),
      events := events s @
        [Stopped, Timeout (currentChainIndex s) (length (executedChains s)), Started]\<rparr>"
  let ?c = "ByTimeout (currentChainIndex s) (length (executedChains s))"
  from True assms(1) have st: "asyncStart t0 t (s, ps) = (?s1, ps)"
    by (simp add: start_def checkOutputBegin_def stop_def Let_def)
  have a1: "\<not> isActive ?s1" by simp
  have "events ?s1 = events s @
      [Stopped, Timeout (currentChainIndex s) (length (executedChains s)), Started]"
    by simp
  from appendedI [OF this] have 1: "appended s ?s1" "terminalSince s ?s1 = reportOf ?c"
    by simp_all
  from assms(2) st have rest: "fold asyncStep acts (?s1, ps) = (s', ps')"
    by (simp add: asyncRun_def)
  from fold_inactive [OF a1 rest]
  have 2: "appended ?s1 s'" "list_all isLateReport (terminalSince ?s1 s')"
    "length (terminalSince ?s1 s') \<le> length ps" "\<not> isActive s'"
    by simp_all
  from appended_trans [OF 1(1) 2(1)] 1(2)
  have "appended s s'" "terminalSince s s' = reportOf ?c @ terminalSince ?s1 s'" by simp_all
  with 2 True show ?thesis by simp
next
  case False
  let ?s1 = "s\<lparr>isActive := True, startTime := Some t0, interval := Some (pollInterval s),
      pollCount := Suc (pollCount s), events := events s @ [Started]\<rparr>"
  let ?ps1 = "ps @ [PendingRead Immediate]"
  from False assms(1) have st: "asyncStart t0 t (s, ps) = (?s1, ?ps1)"
    by (simp add: start_def checkOutputBegin_def Let_def)
  have a1: "isActive ?s1" by simp
  have "events ?s1 = events s @ [Started]" by simp
  from appendedI [OF this] have 1: "appended s ?s1" "terminalSince s ?s1 = []" by simp_all
  from assms(2) st have rest: "fold asyncStep acts (?s1, ?ps1) = (s', ps')"
    by (simp add: asyncRun_def)
  from fold_active [OF a1 rest] have 2: "appended ?s1 s'"
    "case endOfRun acts (?s1, ?ps1) of
       None \<Rightarrow> isActive s' \<and> terminalSince ?s1 s' = []
     | Some (c, inFlight) \<Rightarrow>
         \<not> isActive s' \<and> prefix (reportOf c) (terminalSince ?s1 s') \<and>
         list_all isLateReport (drop (length (reportOf c)) (terminalSince ?s1 s')) \<and>
         length (terminalSince ?s1 s') \<le> length (reportOf c) + length inFlight"
    by simp_all
  from appended_trans [OF 1(1) 2(1)] 1(2)
  have "appended s s'" "terminalSince s s' = terminalSince ?s1 s'" by simp_all
  with 2(2) False st show ?thesis
    by (simp split: option.splits prod.splits)
qed

text \<open>The final state of the example run.\<close>

lemma demoRun_state:
  "demoRun =
     demoMonitor\<lparr>currentChainIndex := 1,
       currentKeyword := Some (asc ''STAGE2_COMPLETE''),
       isActive := False, startTime := Some 0, interval := None,
       outputBuffer := 0x0A # asc ''STAGE1_COMPLETE'' @ 0x0A # asc ''STAGE2_COMPLETE'',
       pollCount := 2,
       executedChains :=
         [Execution (Some (asc ''STAGE1_COMPLETE''))
            (Some (asc ''Now execute stage 2: Create the implementation plan'')) 1000 0,
          Execution (Some (asc ''STAGE2_COMPLETE''))
            (Some (asc ''Execute stage 3: Begin implementation'')) 6000 1],
       detectedKeywords := [Some (asc ''STAGE1_COMPLETE''), Some (asc ''STAGE2_COMPLETE'')],
       lastDetectedPosition :=
         [(Some (asc ''STAGE1_COMPLETE''), 1), (Some (asc ''STAGE2_COMPLETE''), 17)],
       events :=
         [Started,
          ChainExecuted (Some (asc ''STAGE1_COMPLETE''))
            (Some (asc ''Now execute stage 2: Create the implementation plan'')) 0,
          ChainExecuted (Some (asc ''STAGE2_COMPLETE''))
            (Some (asc ''Execute stage 3: Begin implementation'')) 1,
          ChainComplete 2
            [Execution (Some (asc ''STAGE1_COMPLETE''))
               (Some (asc ''Now execute stage 2: Create the implementation plan'')) 1000 0,
             Execution (Some (asc ''STAGE2_COMPLETE''))
               (Some (asc ''Execute stage 3: Begin implementation'')) 6000 1],
          Stopped],
       channelLog := [Send 1, Send 1]\<rparr>"
  by code_simp

lemma demoStoppedEarly_state:
  "events (fst demoStoppedEarly) =
     [Started, Stopped,
      ChainExecuted (Some (asc ''STAGE2_COMPLETE''))
        (Some (asc ''Execute stage 3: Begin implementation'')) 1,
      ChainComplete 1
        [Execution (Some (asc ''STAGE2_COMPLETE''))
           (Some (asc ''Execute stage 3: Begin implementation'')) 1000 1]] \<and>
   \<not> isActive (fst demoStoppedEarly)"
  by code_simp

text \<open>
  C5, as stated: a run that reaches a terminal outcome reports it by exactly one
  lifecycle event. The example run completes its chain and emits two terminal events,
  \<open>chain_complete\<close> and then \<open>stopped\<close>, since every terminal path goes through \<open>stop()\<close>.
  And in the run in which \<open>stop()\<close> is called while the first read is in flight, the
  poll cycle goes on once the read answers: after \<open>stopped\<close> the monitor still executes
  a stage and emits \<open>chain_complete\<close>.
\<close>

theorem run_two_terminal_events_counterexample:
  "\<not> isActive demoRun \<and>
   filter isTerminalEvent (events demoRun) =
     [ChainComplete 2
        [Execution (Some (asc ''STAGE1_COMPLETE''))
           (Some (asc ''Now execute stage 2: Create the implementation plan'')) 1000 0,
         Execution (Some (asc ''STAGE2_COMPLETE''))
           (Some (asc ''Execute stage 3: Begin implementation'')) 6000 1],
      Stopped] \<and>
   length (filter isTerminalEvent (events demoRun)) = 2 \<and>
   \<not> isActive (fst demoStoppedEarly) \<and>
   filter isTerminalEvent (events (fst demoStoppedEarly)) =
     [Stopped,
      ChainComplete 1
        [Execution (Some (asc ''STAGE2_COMPLETE''))
           (Some (asc ''Execute stage 3: Begin implementation'')) 1000 1]]"
  by (simp add: demoRun_state demoStoppedEarly_state)

text \<open>
  C5, amended: take any run of the monitor from \<open>start()\<close>, with timer ticks, answers
  of reads, ends of dispatches and calls of \<open>stop()\<close> in any order, and with whatever
  an earlier run has left in flight (\<open>ps\<close>). Events are only appended. As long as no step has ended the run, the monitor is active and no terminal
  event has been emitted. Once a step has ended it (\<open>runEnd\<close> names the outcome of
  the first such step: external stop, timeout, failed dispatch, or successful dispatch
  of a stage without \<open>nextKeyword\<close>), the monitor is no longer active and the terminal
  events begin with the report of exactly that outcome: \<open>stopped\<close> alone for an
  external stop; \<open>stopped\<close>, \<open>timeout\<close> for a timeout; \<open>chain_failed\<close>,
  \<open>stopped\<close> for a failed dispatch; \<open>chain_complete\<close>, \<open>stopped\<close> for completion.
  Whatever terminal event follows is a \<open>chain_failed\<close> or \<open>chain_complete\<close> of a poll
  cycle that was still in flight when the run ended, at most one for each of them; with
  nothing in flight the report is all there is. So no outcome is left out and \<open>stopped\<close>
  is emitted exactly once, but completion, failure and timeout are each reported by two
  lifecycle events, not one.
\<close>

theorem run_reports_outcome:
  assumes "\<not> isActive s"
  shows "let (s', ps') = asyncRun t0 t acts (s, ps); T = terminalSince s s' in
     appended s s' \<and>
     (case runEnd t0 t acts (s, ps) of
        None \<Rightarrow> isActive s' \<and> T = []
      | Some (c, inFlight) \<Rightarrow>
          \<not> isActive s' \<and> prefix (reportOf c) T \<and>
          list_all isLateReport (drop (length (reportOf c)) T) \<and>
          length T \<le> length (reportOf c) + length inFlight)"
proof -
  obtain s' ps' where r: "asyncRun t0 t acts (s, ps) = (s', ps')"
    by (cases "asyncRun t0 t acts (s, ps)")
  from run_report_aux [OF assms r] r show ?thesis
    by (simp add: Let_def)
qed

lemma demo_runEnd:
  "runEnd 0 1000
     (runSteps (channelAt 1000 (ReadOk (0x0A # asc ''STAGE1_COMPLETE'')))
        [Tick (channelAt 6000 (ReadOk (0x0A # asc ''STAGE2_COMPLETE'')))]) (demoMonitor, []) =
   Some (ByCompletion 2
      [Execution (Some (asc ''STAGE1_COMPLETE''))
         (Some (asc ''Now execute stage 2: Create the implementation plan'')) 1000 0,
       Execution (Some (asc ''STAGE2_COMPLETE''))
         (Some (asc ''Execute stage 3: Begin implementation'')) 6000 1], [])"
  by code_simp

text \<open>
  The example run as a sequence of steps: it ends by completion with nothing in flight,
  and its terminal events are \<open>chain_complete\<close>, \<open>stopped\<close>.
\<close>

theorem run_reports_outcome_witness:
  "\<not> isActive demoMonitor \<and>
   asyncRun 0 1000
     (runSteps (channelAt 1000 (ReadOk (0x0A # asc ''STAGE1_COMPLETE'')))
        [Tick (channelAt 6000 (ReadOk (0x0A # asc ''STAGE2_COMPLETE'')))]) (demoMonitor, []) =
     (demoRun, []) \<and>
   runEnd 0 1000
     (runSteps (channelAt 1000 (ReadOk (0x0A # asc ''STAGE1_COMPLETE'')))
        [Tick (channelAt 6000 (ReadOk (0x0A # asc ''STAGE2_COMPLETE'')))]) (demoMonitor, []) =
     Some (ByCompletion 2
        [Execution (Some (asc ''STAGE1_COMPLETE''))
           (Some (asc ''Now execute stage 2: Create the implementation plan'')) 1000 0,
         Execution (Some (asc ''STAGE2_COMPLETE''))
           (Some (asc ''Execute stage 3: Begin implementation'')) 6000 1], []) \<and>
   terminalSince demoMonitor demoRun =
     [ChainComplete 2
        [Execution (Some (asc ''STAGE1_COMPLETE''))
           (Some (asc ''Now execute stage 2: Create the implementation plan'')) 1000 0,
         Execution (Some (asc ''STAGE2_COMPLETE''))
           (Some (asc ''Execute stage 3: Begin implementation'')) 6000 1],
      Stopped]"
proof -
  let ?env = "channelAt 1000 (ReadOk (0x0A # asc ''STAGE1_COMPLETE''))"
  let ?steps = "runSteps ?env [Tick (channelAt 6000 (ReadOk (0x0A # asc ''STAGE2_COMPLETE'')))]"
  let ?xs = "[Execution (Some (asc ''STAGE1_COMPLETE''))
           (Some (asc ''Now execute stage 2: Create the implementation plan'')) 1000 0,
         Execution (Some (asc ''STAGE2_COMPLETE''))
           (Some (asc ''Execute stage 3: Begin implementation'')) 6000 1]"
  have a: "\<not> isActive demoMonitor" by (simp add: demoMonitor_fields)
  have "now ?env = 1000" by (simp add: channelAt_def)
  with run_steps [of 0 ?env "[Tick (channelAt 6000 (ReadOk (0x0A # asc ''STAGE2_COMPLETE'')))]"
      demoMonitor]
  have r: "asyncRun 0 1000 ?steps (demoMonitor, []) = (demoRun, [])"
    by (simp add: demoRun_def)
  note p = run_reports_outcome [OF a, of 0 1000 ?steps "[]",
      unfolded r demo_runEnd Let_def prod.case option.case]
  from p have "prefix (reportOf (ByCompletion 2 ?xs)) (terminalSince demoMonitor demoRun)"
    and "length (terminalSince demoMonitor demoRun) \<le> length (reportOf (ByCompletion 2 ?xs))"
    by simp_all
  then have "terminalSince demoMonitor demoRun = reportOf (ByCompletion 2 ?xs)"
    by (auto simp: prefix_def)
  with a r demo_runEnd show ?thesis by simp
qed

section \<open>The order of stage executions\<close>

text \<open>
  What the duplicate guard does ensure: no pair of keyword and stage index is executed
  twice, in any run.
\<close>

lemma stop_executed [simp]: "executedChains (stop s) = executedChains s"
  by (simp add: stop_def)

lemma guard_stageKey:
  "list_ex (\<lambda>e. exKeyword e = k \<and> exChainIndex e = i) xs \<longleftrightarrow> (k, i) \<in> set (map stageKey xs)"
  by (induction xs) (auto simp: stageKey_def)

lemma executeChainAction_distinct:
  assumes "distinct (map stageKey (executedChains s))"
  shows "distinct (map stageKey (executedChains (executeChainAction env c s)))"
proof (cases "list_ex (\<lambda>e. exKeyword e = keyword (fst c) \<and> exChainIndex e = snd c) (executedChains s)")
  case True
  with assms show ?thesis by (simp add: executeChainAction_def Let_def)
next
  case False
  then have "(keyword (fst c), snd c) \<notin> set (map stageKey (executedChains s))"
    by (simp only: guard_stageKey not_False_eq_True)
  with assms False show ?thesis
    by (simp add: executeChainAction_def Let_def stageKey_def split: prod.splits)
qed

lemma detect_executed:
  "detectKeywordInOutput kw s = Inr (d, s') \<Longrightarrow> executedChains s' = executedChains s"
  by (auto simp: detectKeywordInOutput_def Let_def split: if_splits option.splits)

lemma checkEntries_distinct:
  "distinct (map stageKey (executedChains s)) \<Longrightarrow>
     distinct (map stageKey (executedChains (fst (checkEntries env es s))))"
proof (induction es arbitrary: s)
  case Nil
  then show ?case by simp
next
  case (Cons entry es)
  obtain kw chainConfig where entry: "entry = (kw, chainConfig)" by (cases entry)
  show ?case
  proof (cases "detectKeywordInOutput kw s")
    case (Inl e)
    with entry Cons.prems show ?thesis by simp
  next
    case (Inr r)
    obtain d s' where r: "r = (d, s')" by (cases r)
    with Inr have "executedChains s' = executedChains s"
      using detect_executed by blast
    with Cons.prems have d': "distinct (map stageKey (executedChains s'))" by simp
    show ?thesis
    proof (cases d)
      case True
      with entry Inr r executeChainAction_distinct [OF d'] show ?thesis by simp
    next
      case False
      with entry Inr r Cons.IH [OF d'] show ?thesis by simp
    qed
  qed
qed

lemma checkOutputResume_distinct:
  assumes "distinct (map stageKey (executedChains s))"
  shows "distinct (map stageKey (executedChains (fst (checkOutputResume env s))))"
proof (cases "readResult env")
  case (ReadOk out)
  let ?s1 = "s\<lparr>outputBuffer := sliceLast 10000 (outputBuffer s) @ unwrapOutput out\<rparr>"
  have "distinct (map stageKey (executedChains (fst (checkEntries env (keywordMap ?s1) ?s1))))"
    using assms by (intro checkEntries_distinct) simp
  with ReadOk show ?thesis
    by (simp add: checkOutputResume_def checkForKeywords_def)
next
  case (ReadFailed msg)
  with assms show ?thesis by (simp add: checkOutputResume_def)
next
  case (ReadThrew e)
  with assms show ?thesis by (simp add: checkOutputResume_def)
qed

lemma checkOutputBegin_executed:
  "executedChains (fst (checkOutputBegin t s)) = executedChains s"
  by (simp add: checkOutputBegin_def Let_def)

lemma checkOutput_distinct:
  assumes "distinct (map stageKey (executedChains s))"
  shows "distinct (map stageKey (executedChains (fst (checkOutput env s))))"
proof -
  obtain s1 ph where b: "checkOutputBegin (now env) s = (s1, ph)"
    by (cases "checkOutputBegin (now env) s")
  with checkOutputBegin_executed [of "now env" s] assms
  have d1: "distinct (map stageKey (executedChains s1))" by simp
  show ?thesis
    using b d1 checkOutputResume_distinct [OF d1, of env]
    by (cases ph) (simp_all add: checkOutput_def)
qed

lemma perform_distinct:
  assumes "distinct (map stageKey (executedChains s))"
  shows "distinct (map stageKey (executedChains (perform a s)))"
proof (cases a)
  case (Tick env)
  obtain s' err where r: "checkOutput env s = (s', err)"
    by (cases "checkOutput env s")
  with checkOutput_distinct [OF assms, of env]
  have "distinct (map stageKey (executedChains s'))" by simp
  with Tick r assms show ?thesis
    by (cases err) (simp_all add: intervalTick_def)
next
  case StopCall
  with assms show ?thesis by simp
qed

lemma fold_perform_distinct:
  "distinct (map stageKey (executedChains s)) \<Longrightarrow>
     distinct (map stageKey (executedChains (fold perform acts s)))"
  by (induction acts arbitrary: s) (simp_all add: perform_distinct)

lemma startAndCheck_distinct:
  assumes "distinct (map stageKey (executedChains s))"
  shows "distinct (map stageKey (executedChains (startAndCheck t0 env s)))"
proof (cases "isActive s")
  case True
  with assms show ?thesis by (simp add: startAndCheck_def start_def)
next
  case False
  let ?s1 = "s\<lparr>isActive := True, startTime := Some t0, interval := Some (pollInterval s)\<rparr>"
  obtain s2 ph where b: "checkOutputBegin (now env) ?s1 = (s2, ph)"
    by (cases "checkOutputBegin (now env) ?s1")
  with checkOutputBegin_executed [of "now env" ?s1] assms
  have d2: "distinct (map stageKey (executedChains (s2\<lparr>events := events s2 @ [Started]\<rparr>)))"
    by simp
  obtain s3 err where r: "checkOutputResume env (s2\<lparr>events := events s2 @ [Started]\<rparr>) = (s3, err)"
    by (cases "checkOutputResume env (s2\<lparr>events := events s2 @ [Started]\<rparr>)")
  with checkOutputResume_distinct [OF d2, of env]
  have d3: "distinct (map stageKey (executedChains s3))" by simp
  show ?thesis
    using False b d2 d3 r
    by (cases ph; cases err)
      (simp_all add: startAndCheck_def start_def Let_def immediateCheckResume_def)
qed

lemma run_no_stage_twice:
  "distinct (map stageKey (executedChains s)) \<Longrightarrow>
     distinct (map stageKey (executedChains (runMonitor t0 env acts s)))"
  by (simp add: runMonitor_def fold_perform_distinct startAndCheck_distinct)

text \<open>
  C2 says that stages are executed in strictly increasing index order, the awaited
  stage only. \<open>checkForKeywords\<close> scans for the keyword of every stage, not for
  \<open>currentKeyword\<close>: while the example monitor awaits \<open>STAGE1_COMPLETE\<close>, a line
  \<open>STAGE2_COMPLETE\<close> in the first output executes stage 1 (the second stage), reports
  the chain complete with one stage executed, and stops; stage 0 is never executed.
\<close>

theorem later_stage_executed_first:
  "currentKeyword demoMonitor = Some (asc ''STAGE1_COMPLETE'') \<and>
   events (runMonitor 0 (channelAt 1000 (ReadOk (asc ''STAGE2_COMPLETE''))) [] demoMonitor) =
     [Started,
      ChainExecuted (Some (asc ''STAGE2_COMPLETE''))
        (Some (asc ''Execute stage 3: Begin implementation'')) 1,
      ChainComplete 1
        [Execution (Some (asc ''STAGE2_COMPLETE''))
           (Some (asc ''Execute stage 3: Begin implementation'')) 1000 1],
      Stopped]"
  by code_simp

section \<open>Failing reads\<close>

text \<open>
  A timer tick whose read fails: the poll is counted, the error is logged and emitted as
  an \<open>error\<close> event; the monitor stays active, the timer stays set, nothing is sent and
  no stage is executed.
\<close>

lemma tick_read_failure:
  assumes "isActive s" and "interval s \<noteq> None"
    and "now env - (case startTime s of None \<Rightarrow> 0 | Some t0 \<Rightarrow> t0) \<le> timeout s"
    and "readResult env = ReadFailed msg"
  shows "intervalTick env s =
     s\<lparr>pollCount := Suc (pollCount s),
       console := console s @
         [ConsoleError (Error (if truthy msg then toStr msg
                               else asc ''Failed to read instance output''))],
       events := events s @
         [ErrorEvent (Error (if truthy msg then toStr msg
                             else asc ''Failed to read instance output''))]\<rparr>"
  using assms
  by (auto simp: intervalTick_def checkOutput_def checkOutputBegin_def checkOutputResume_def Let_def)

text \<open>
  C6 says that every poll cycle whose read fails surfaces an \<open>error\<close> event. The
  immediate check of \<open>start()\<close> is such a poll cycle, and its rejection is passed to
  \<open>console.error\<close> only: after \<open>start()\<close> with a failing first read the only event is
  \<open>started\<close>. (The monitor does stay active, with the timer set and nothing sent.)
\<close>

theorem immediate_read_failure_not_emitted:
  "events (startAndCheck 0 demoFailedRead demoMonitor) = [Started] \<and>
   console (startAndCheck 0 demoFailedRead demoMonitor) =
     [ConsoleError (Error (asc ''Session claude_spec_1_1_123456 does not exist''))] \<and>
   isActive (startAndCheck 0 demoFailedRead demoMonitor) \<and>
   interval (startAndCheck 0 demoFailedRead demoMonitor) = Some 5000 \<and>
   channelLog (startAndCheck 0 demoFailedRead demoMonitor) = []"
  by code_simp

end
